theory Spec2Isabelle
  imports Complex_Main "HOL-Library.Sublist" "HOL-Library.Multiset" "HOL-Library.AList"
    "HOL-Library.Product_Lexorder"
begin

section \<open>Python strings and the primitives the tools call\<close>

text \<open>
  A Python \<^verbatim>\<open>str\<close> is a sequence of Unicode code points, so a string is a list of
  natural numbers here: \<open>length\<close> counts code points as \<^verbatim>\<open>len\<close> does, and a
  character above U+00FF is one element. ASCII literals are written \<open>ustr ''abc''\<close>.
\<close>

type_synonym uchar = nat
type_synonym ustring = "nat list"

definition ustr :: "string \<Rightarrow> ustring" where
  "ustr s = map of_char s"

text \<open>
  The tools call three primitives of the Python runtime that depend on the Unicode
  character database: \<^verbatim>\<open>str.lower()\<close>, \<^verbatim>\<open>str.isalnum()\<close> on one character, and
  the whitespace test shared by \<^verbatim>\<open>str.strip()\<close> and the regular expression class
  \<^verbatim>\<open>\s\<close>. The database is not part of the repository, so the three are the fields of
  a parameter that every function of the model takes. \<open>lower\<close> works on whole
  strings, because Python's lowering of the capital sigma depends on its neighbours.
\<close>

record unicode_db =
  lower :: "ustring \<Rightarrow> ustring"
  isalnum :: "uchar \<Rightarrow> bool"
  isspace :: "uchar \<Rightarrow> bool"

text \<open>\<^verbatim>\<open>old in s\<close> on strings: \<open>old\<close> occurs in \<open>s\<close> as a contiguous block.\<close>

fun contains :: "'a list \<Rightarrow> 'a list \<Rightarrow> bool" where
  "contains old [] = (old = [])"
| "contains old (c # cs) = (prefix old (c # cs) \<or> contains old cs)"

text \<open>
  \<^verbatim>\<open>s.replace(old, new)\<close>: every occurrence of \<open>old\<close>, found from the left and not
  overlapping an earlier one, becomes \<open>new\<close>. With an empty \<open>old\<close> Python puts
  \<open>new\<close> before every character and at the end.
\<close>

fun replace :: "'a list \<Rightarrow> 'a list \<Rightarrow> 'a list \<Rightarrow> 'a list" where
  "replace [] new s = new @ concat (map (\<lambda>c. c # new) s)"
| "replace (k # ks) new [] = []"
| "replace (k # ks) new (c # cs) =
     (if prefix (k # ks) (c # cs) then new @ replace (k # ks) new (drop (length ks) cs)
      else c # replace (k # ks) new cs)"

text \<open>\<^verbatim>\<open>s.strip(chars)\<close> and \<^verbatim>\<open>s.strip()\<close>: drop the characters at both ends.\<close>

definition strip_chars :: "uchar list \<Rightarrow> ustring \<Rightarrow> ustring" where
  "strip_chars cs s =
     rev (dropWhile (\<lambda>c. c \<in> set cs) (rev (dropWhile (\<lambda>c. c \<in> set cs) s)))"

definition strip :: "unicode_db \<Rightarrow> ustring \<Rightarrow> ustring" where
  "strip U s = rev (dropWhile (isspace U) (rev (dropWhile (isspace U) s)))"

text \<open>
  \<^verbatim>\<open>re.sub(r'\s+', '-', s)\<close>: every maximal run of whitespace becomes one dash
  (U+002D, code point 45).
\<close>

function sub_whitespace :: "unicode_db \<Rightarrow> ustring \<Rightarrow> ustring" where
  "sub_whitespace U [] = []"
| "sub_whitespace U (c # cs) =
     (if isspace U c then 45 # sub_whitespace U (dropWhile (isspace U) cs)
      else c # sub_whitespace U cs)"
  by pat_completeness auto
termination
  by (relation "measure (\<lambda>(U, s). length s)")
     (simp_all add: le_imp_less_Suc length_dropWhile_le)

text \<open>
  \<^verbatim>\<open>re.sub(r'([a-z])_([a-z])(?![a-z])', r'\1\2', s)\<close>. The scan goes from the left;
  a match takes three characters (letter, underscore, letter) when the character
  after them is not a letter a to z, and the scan resumes after the match, so the
  second letter of one match is never the first letter of the next.
\<close>

definition is_az :: "uchar \<Rightarrow> bool" where
  "is_az c = (97 \<le> c \<and> c \<le> 122)"

fun sub_underscore :: "ustring \<Rightarrow> ustring" where
  "sub_underscore (x # u # y # rest) =
     (if is_az x \<and> u = 95 \<and> is_az y \<and> \<not> (case rest of [] \<Rightarrow> False | z # _ \<Rightarrow> is_az z)
      then x # y # sub_underscore rest
      else x # sub_underscore (u # y # rest))"
| "sub_underscore s = s"

section \<open>The sanitizer (folder\_sanitizer.py)\<close>

definition unknown :: ustring where
  "unknown = ustr ''unknown''"

definition empty_brackets :: "ustring list" where
  "empty_brackets = [ustr ''( )'', ustr ''()'', ustr ''[ ]'', ustr ''[]'', ustr ''{ }'', ustr ''{}'']"

text \<open>The dictionaries keep their insertion order; the loops below follow it.\<close>

definition accent_map :: "(ustring \<times> ustring) list" where
  "accent_map =
    [([225], ustr ''a''), ([224], ustr ''a''), ([228], ustr ''a''), ([226], ustr ''a''),
     ([227], ustr ''a''), ([229], ustr ''a''),
     ([233], ustr ''e''), ([232], ustr ''e''), ([235], ustr ''e''), ([234], ustr ''e''),
     ([237], ustr ''i''), ([236], ustr ''i''), ([239], ustr ''i''), ([238], ustr ''i''),
     ([243], ustr ''o''), ([242], ustr ''o''), ([246], ustr ''o''), ([244], ustr ''o''),
     ([245], ustr ''o''), ([248], ustr ''o''),
     ([250], ustr ''u''), ([249], ustr ''u''), ([252], ustr ''u''), ([251], ustr ''u''),
     ([253], ustr ''y''), ([255], ustr ''y''),
     ([241], ustr ''n''),
     ([231], ustr ''c''),
     ([223], ustr ''ss''),
     ([230], ustr ''ae''),
     ([339], ustr ''oe''),
     ([240], ustr ''d''),
     ([254], ustr ''th'')]"

definition symbol_map :: "(ustring \<times> ustring) list" where
  "symbol_map =
    [([189], ustr ''half''), ([8531], ustr ''third''), ([188], ustr ''quarter''),
     ([190], ustr ''three-quarters''),
     ([8539], ustr ''eighth''), ([8540], ustr ''three-eighths''),
     ([8541], ustr ''five-eighths''), ([8542], ustr ''seven-eighths''),
     ([178], ustr ''2''), ([179], ustr ''3''), ([185], ustr ''1''),
     ([8211], ustr ''-''), ([8212], ustr ''-''), ([8722], ustr ''-'')]"

definition fraction_words :: "ustring list" where
  "fraction_words =
    [ustr ''half'', ustr ''third'', ustr ''quarter'', ustr ''three-quarters'', ustr ''eighth'',
     ustr ''three-eighths'', ustr ''five-eighths'', ustr ''seven-eighths'']"

text \<open>
  The list as the source file has it: its fifth entry is the two-character string
  comma, space, and its sixth and seventh are both the ASCII double quote.
\<close>

definition remove_chars :: "ustring list" where
  "remove_chars =
    [[176], [169], [174], [8482], [44, 32], [34], [34], [171], [187], [8249], [8250],
     [8222], [8218],
     [40], [41], [43], [61], [37], [64], [35], [36], [8364], [163], [8230]]"

definition greek_map :: "(ustring \<times> ustring) list" where
  "greek_map =
    [([913], ustr ''a''), ([945], ustr ''a''), ([940], ustr ''a''), ([902], ustr ''a''),
     ([914], ustr ''b''), ([946], ustr ''b''),
     ([915], ustr ''g''), ([947], ustr ''g''),
     ([916], ustr ''d''), ([948], ustr ''d''),
     ([917], ustr ''e''), ([949], ustr ''e''), ([941], ustr ''e''), ([904], ustr ''e''),
     ([918], ustr ''z''), ([950], ustr ''z''),
     ([919], ustr ''e''), ([951], ustr ''e''), ([942], ustr ''e''), ([905], ustr ''e''),
     ([920], ustr ''th''), ([952], ustr ''th''),
     ([921], ustr ''i''), ([953], ustr ''i''), ([943], ustr ''i''), ([970], ustr ''i''),
     ([912], ustr ''i''), ([906], ustr ''i''), ([938], ustr ''i''),
     ([922], ustr ''k''), ([954], ustr ''k''),
     ([923], ustr ''l''), ([955], ustr ''l''),
     ([924], ustr ''m''), ([956], ustr ''m''),
     ([925], ustr ''n''), ([957], ustr ''n''),
     ([926], ustr ''x''), ([958], ustr ''x''),
     ([927], ustr ''o''), ([959], ustr ''o''), ([972], ustr ''o''), ([908], ustr ''o''),
     ([928], ustr ''p''), ([960], ustr ''p''),
     ([929], ustr ''r''), ([961], ustr ''r''),
     ([931], ustr ''s''), ([963], ustr ''s''), ([962], ustr ''s''),
     ([932], ustr ''t''), ([964], ustr ''t''),
     ([933], ustr ''u''), ([965], ustr ''u''), ([973], ustr ''u''), ([971], ustr ''u''),
     ([944], ustr ''u''), ([910], ustr ''u''), ([939], ustr ''u''),
     ([934], ustr ''f''), ([966], ustr ''f''),
     ([935], ustr ''ch''), ([967], ustr ''ch''),
     ([936], ustr ''ps''), ([968], ustr ''ps''),
     ([937], ustr ''o''), ([969], ustr ''o''), ([974], ustr ''o''), ([911], ustr ''o'')]"

text \<open>\<^verbatim>\<open>for k, v in m.items(): s = s.replace(k, v)\<close>\<close>

definition apply_map :: "(ustring \<times> ustring) list \<Rightarrow> ustring \<Rightarrow> ustring" where
  "apply_map m s = foldl (\<lambda>acc (k, v). replace k v acc) s m"

text \<open>
  The loop over \<open>symbol_map\<close>: a replacement that is one of the fraction words gets a
  dash in front; an empty replacement would go in as it is (the map has none).
\<close>

definition symbol_replacement :: "ustring \<Rightarrow> ustring" where
  "symbol_replacement r =
     (if r \<noteq> [] then (if r \<in> set fraction_words then 45 # r else r) else r)"

definition apply_symbols :: "ustring \<Rightarrow> ustring" where
  "apply_symbols s = foldl (\<lambda>acc (k, v). replace k (symbol_replacement v) acc) s symbol_map"

text \<open>\<^verbatim>\<open>for char in remove_chars: s = s.replace(char, '')\<close>\<close>

definition apply_remove :: "ustring list \<Rightarrow> ustring \<Rightarrow> ustring" where
  "apply_remove rs s = foldl (\<lambda>acc k. replace k [] acc) s rs"

text \<open>\<^verbatim>\<open>while "--" in s: s = s.replace("--", "-")\<close>\<close>

lemma length_replace_le:
  "length new \<le> length old \<Longrightarrow> length (replace old new s) \<le> length s"
proof (induction old new s rule: replace.induct)
  case (1 new s)
  then show ?case by simp
next
  case (2 k ks new)
  then show ?case by simp
next
  case (3 k ks new c cs)
  show ?case
  proof (cases "prefix (k # ks) (c # cs)")
    case True
    then have len: "length ks \<le> length cs"
      using prefix_length_le [of "k # ks" "c # cs"] by simp
    have "length (replace (k # ks) new (drop (length ks) cs)) \<le> length (drop (length ks) cs)"
      using 3(1) [OF True 3(3)] .
    then have "length (replace (k # ks) new (drop (length ks) cs)) \<le> length cs - length ks"
      by simp
    moreover have "length new \<le> Suc (length ks)" using 3(3) by simp
    moreover have "replace (k # ks) new (c # cs) = new @ replace (k # ks) new (drop (length ks) cs)"
      using True by (simp del: Cons_prefix_Cons)
    ultimately show ?thesis using len by simp
  next
    case False
    have "length (replace (k # ks) new cs) \<le> length cs"
      using 3(2) [OF False 3(3)] .
    moreover have "replace (k # ks) new (c # cs) = c # replace (k # ks) new cs"
      using False by (simp del: Cons_prefix_Cons)
    ultimately show ?thesis by simp
  qed
qed

lemma length_replace_less:
  "length new < length old \<Longrightarrow> contains old s \<Longrightarrow> length (replace old new s) < length s"
proof (induction old new s rule: replace.induct)
  case (1 new s)
  then show ?case by simp
next
  case (2 k ks new)
  then show ?case by simp
next
  case (3 k ks new c cs)
  show ?case
  proof (cases "prefix (k # ks) (c # cs)")
    case True
    then have len: "length ks \<le> length cs"
      using prefix_length_le [of "k # ks" "c # cs"] by simp
    have "length (replace (k # ks) new (drop (length ks) cs)) \<le> length (drop (length ks) cs)"
      using length_replace_le [of new "k # ks" "drop (length ks) cs"] 3(3) by simp
    then have "length (replace (k # ks) new (drop (length ks) cs)) \<le> length cs - length ks"
      by simp
    moreover have "length new < Suc (length ks)" using 3(3) by simp
    moreover have "replace (k # ks) new (c # cs) = new @ replace (k # ks) new (drop (length ks) cs)"
      using True by (simp del: Cons_prefix_Cons)
    ultimately show ?thesis using len by simp
  next
    case False
    then have "contains (k # ks) cs" using 3(4) by (simp del: Cons_prefix_Cons)
    then have "length (replace (k # ks) new cs) < length cs"
      using 3(2) [OF False 3(3)] by simp
    moreover have "replace (k # ks) new (c # cs) = c # replace (k # ks) new cs"
      using False by (simp del: Cons_prefix_Cons)
    ultimately show ?thesis by simp
  qed
qed

function collapse_dashes :: "ustring \<Rightarrow> ustring" where
  "collapse_dashes s =
     (if contains [45, 45] s then collapse_dashes (replace [45, 45] [45] s) else s)"
  by pat_completeness auto
termination
proof (relation "measure length")
  show "wf (measure length)" by simp
next
  fix s :: ustring
  assume "contains [45, 45] s"
  then have "length (replace [45, 45] [45] s) < length s"
    by (intro length_replace_less) simp_all
  then show "(replace [45, 45] [45] s, s) \<in> measure length" by simp
qed

declare collapse_dashes.simps [simp del]

text \<open>\<^verbatim>\<open>sanitize_folder_name(name)\<close>, statement by statement.\<close>

definition sanitize_folder_name :: "unicode_db \<Rightarrow> ustring \<Rightarrow> ustring" where
  "sanitize_folder_name U name =
     (if name = [] \<or> strip U name = [] then unknown
      else if strip U name \<in> set empty_brackets then unknown
      else
        let sanitized = lower U name;
            sanitized = sub_whitespace U sanitized;
            sanitized = sub_underscore sanitized;
            sanitized = replace [95] [45] sanitized;
            sanitized = replace [125] [] (replace [123] [] (replace [93] [] (replace [91] [] sanitized)));
            sanitized = replace [34] [] (replace [39] [] (replace [38] [] sanitized));
            sanitized = replace [33] [] (replace [46] [] sanitized);
            sanitized = replace [58] [] (replace [59] [] (replace [63] [] sanitized));
            sanitized = apply_map accent_map sanitized;
            sanitized = apply_symbols sanitized;
            sanitized = apply_remove remove_chars sanitized;
            sanitized = apply_map greek_map sanitized;
            sanitized = filter (\<lambda>c. isalnum U c \<or> c = 45) sanitized;
            sanitized = collapse_dashes sanitized;
            sanitized = strip_chars [45] sanitized
        in if sanitized = [] then unknown else sanitized)"

section \<open>A concrete character database: U+0000 to U+017F\<close>

text \<open>
  Closed examples need a concrete database. \<open>py_isspace\<close> lists every code point
  for which Python's \<^verbatim>\<open>str.isspace()\<close> holds. \<open>py_isalnum\<close> and \<open>py_lower\<close>
  follow Python on the blocks Basic Latin, Latin-1 Supplement and Latin Extended-A
  (U+0000 to U+017F); above U+017F they take a character as caseless and not
  alphanumeric, so the instance is used on inputs from those three blocks only.
\<close>

definition py_isspace :: "uchar \<Rightarrow> bool" where
  "py_isspace c =
     (c \<in> set [9, 10, 11, 12, 13, 28, 29, 30, 31, 32, 133, 160, 5760, 8192, 8193, 8194, 8195,
        8196, 8197, 8198, 8199, 8200, 8201, 8202, 8232, 8233, 8239, 8287, 12288])"

definition py_isalnum :: "uchar \<Rightarrow> bool" where
  "py_isalnum c =
     ((48 \<le> c \<and> c \<le> 57) \<or> (65 \<le> c \<and> c \<le> 90) \<or> (97 \<le> c \<and> c \<le> 122) \<or>
      c = 170 \<or> c = 178 \<or> c = 179 \<or> c = 181 \<or> c = 185 \<or> c = 186 \<or>
      (188 \<le> c \<and> c \<le> 190) \<or> (192 \<le> c \<and> c \<le> 214) \<or> (216 \<le> c \<and> c \<le> 246) \<or>
      (248 \<le> c \<and> c \<le> 383))"

definition py_lower_char :: "uchar \<Rightarrow> ustring" where
  "py_lower_char c =
     (if (65 \<le> c \<and> c \<le> 90) \<or> (192 \<le> c \<and> c \<le> 222 \<and> c \<noteq> 215) then [c + 32]
      else if c = 304 then [105, 775]
      else if c = 376 then [255]
      else if even c \<and> ((256 \<le> c \<and> c \<le> 311) \<or> (330 \<le> c \<and> c \<le> 375)) then [c + 1]
      else if odd c \<and> ((313 \<le> c \<and> c \<le> 328) \<or> (377 \<le> c \<and> c \<le> 382)) then [c + 1]
      else [c])"

definition py_lower :: "ustring \<Rightarrow> ustring" where
  "py_lower s = concat (map py_lower_char s)"

definition py_unicode :: unicode_db where
  "py_unicode = \<lparr>lower = py_lower, isalnum = py_isalnum, isspace = py_isspace\<rparr>"

lemma collapse_dashes_id: "\<not> contains [45, 45] s \<Longrightarrow> collapse_dashes s = s"
  by (simp add: collapse_dashes.simps)

lemma collapse_dashes_step:
  "contains [45, 45] s \<Longrightarrow> collapse_dashes s = collapse_dashes (replace [45, 45] [45] s)"
  by (subst collapse_dashes.simps) simp

lemmas py_unicode_eval =
  py_unicode_def py_lower_def py_lower_char_def py_isalnum_def py_isspace_def ustr_def

lemmas sanitize_eval =
  sanitize_folder_name_def Let_def py_unicode_eval strip_def strip_chars_def unknown_def
  empty_brackets_def apply_map_def apply_symbols_def apply_remove_def accent_map_def
  symbol_map_def greek_map_def remove_chars_def fraction_words_def symbol_replacement_def
  is_az_def collapse_dashes_id collapse_dashes_step

lemma sanitize_gds_puzzle:
  "sanitize_folder_name py_unicode (ustr ''G_d'' @ [39] @ ustr ''s Puzzle'') = ustr ''gds-puzzle''"
  by (simp add: sanitize_eval)


lemma sanitize_dvorak:
  "sanitize_folder_name py_unicode (ustr ''Dvo'' @ [345, 225] @ ustr ''k'') =
     ustr ''dvo'' @ [345] @ ustr ''ak''"
  by (simp add: sanitize_eval)

lemma sanitize_nonempty: "sanitize_folder_name U name \<noteq> []"
  unfolding sanitize_folder_name_def Let_def by (simp add: unknown_def ustr_def)








section \<open>Claims about the underscore step\<close>



section \<open>Claims about the character domain of the sanitizer\<close>

subsection \<open>Facts about the string primitives\<close>

lemma contains_iff_sublist: "contains old s \<longleftrightarrow> sublist old s"
  by (induction s) (simp_all add: sublist_Cons_right del: Cons_prefix_Cons)

lemma set_replace_subset: "set (replace old new s) \<subseteq> set s \<union> set new"
proof (induction old new s rule: replace.induct)
  case (3 k ks new c cs)
  show ?case
  proof (cases "prefix (k # ks) (c # cs)")
    case True
    have "set (replace (k # ks) new (drop (length ks) cs)) \<subseteq> set (drop (length ks) cs) \<union> set new"
      using "3.IH"(1) [OF True] .
    moreover have "set (drop (length ks) cs) \<subseteq> set cs"
      by (rule set_drop_subset)
    moreover have "replace (k # ks) new (c # cs) = new @ replace (k # ks) new (drop (length ks) cs)"
      using True by (simp del: Cons_prefix_Cons)
    ultimately show ?thesis by auto
  next
    case False
    have "set (replace (k # ks) new cs) \<subseteq> set cs \<union> set new"
      using "3.IH"(2) [OF False] .
    moreover have "replace (k # ks) new (c # cs) = c # replace (k # ks) new cs"
      using False by (simp del: Cons_prefix_Cons)
    ultimately show ?thesis by auto
  qed
qed auto

lemma list_all_replace:
  "list_all P s \<Longrightarrow> list_all P new \<Longrightarrow> list_all P (replace old new s)"
  using set_replace_subset [of old new s] by (auto simp: list_all_iff)

lemma collapse_dashes_no_double: "\<not> contains [45, 45] (collapse_dashes s)"
proof (induction s rule: collapse_dashes.induct)
  case (1 s)
  show ?case
  proof (cases "contains [45, 45] s")
    case True
    then show ?thesis using 1 by (simp add: collapse_dashes_step)
  next
    case False
    then show ?thesis by (simp add: collapse_dashes_id)
  qed
qed

lemma list_all_collapse_dashes:
  "list_all P s \<Longrightarrow> P 45 \<Longrightarrow> list_all P (collapse_dashes s)"
proof (induction s rule: collapse_dashes.induct)
  case (1 s)
  show ?case
  proof (cases "contains [45, 45] s")
    case True
    have "list_all P (replace [45, 45] [45] s)"
      using "1.prems" by (intro list_all_replace) simp_all
    then show ?thesis using 1 True by (simp add: collapse_dashes_step)
  next
    case False
    then show ?thesis using "1.prems" by (simp add: collapse_dashes_id)
  qed
qed

lemma strip_chars_prefix:
  "prefix (strip_chars cs s) (dropWhile (\<lambda>c. c \<in> set cs) s)"
proof -
  have "suffix (dropWhile (\<lambda>c. c \<in> set cs) (rev (dropWhile (\<lambda>c. c \<in> set cs) s)))
          (rev (dropWhile (\<lambda>c. c \<in> set cs) s))"
    by (rule suffix_dropWhile)
  then show ?thesis by (simp add: strip_chars_def suffix_to_prefix)
qed

lemma sublist_strip_chars: "sublist (strip_chars cs s) s"
proof -
  have "sublist (strip_chars cs s) (dropWhile (\<lambda>c. c \<in> set cs) s)"
    using strip_chars_prefix by (rule prefix_imp_sublist)
  moreover have "sublist (dropWhile (\<lambda>c. c \<in> set cs) s) s"
    using suffix_dropWhile by (rule suffix_imp_sublist)
  ultimately show ?thesis by (rule sublist_order.order.trans)
qed

lemma hd_strip_chars: "strip_chars cs s \<noteq> [] \<Longrightarrow> hd (strip_chars cs s) \<notin> set cs"
proof -
  assume ne: "strip_chars cs s \<noteq> []"
  let ?t = "dropWhile (\<lambda>c. c \<in> set cs) s"
  from strip_chars_prefix [of cs s] obtain zs where t: "?t = strip_chars cs s @ zs"
    by (auto simp: prefix_def)
  with ne have "hd ?t = hd (strip_chars cs s)" and "?t \<noteq> []" by auto
  then show ?thesis using hd_dropWhile [of "\<lambda>c. c \<in> set cs" s] by simp
qed

lemma last_strip_chars: "strip_chars cs s \<noteq> [] \<Longrightarrow> last (strip_chars cs s) \<notin> set cs"
proof -
  assume ne: "strip_chars cs s \<noteq> []"
  let ?u = "dropWhile (\<lambda>c. c \<in> set cs) (rev (dropWhile (\<lambda>c. c \<in> set cs) s))"
  from ne have u: "?u \<noteq> []" by (simp add: strip_chars_def)
  have "last (strip_chars cs s) = hd ?u" by (simp add: strip_chars_def last_rev)
  then show ?thesis using hd_dropWhile [OF u] by simp
qed

lemma set_strip_chars: "set (strip_chars cs s) \<subseteq> set s"
proof -
  from sublist_strip_chars [of cs s] obtain ps ss where "s = ps @ strip_chars cs s @ ss"
    by (auto simp: sublist_def)
  then have "set s = set ps \<union> set (strip_chars cs s) \<union> set ss"
    by (metis set_append sup_assoc)
  then show ?thesis by auto
qed

text \<open>The result of \<open>sanitize_folder_name\<close>, when it is not the fallback.\<close>

definition sanitize_filtered :: "unicode_db \<Rightarrow> ustring \<Rightarrow> ustring" where
  "sanitize_filtered U name =
     filter (\<lambda>c. isalnum U c \<or> c = 45)
       (apply_map greek_map (apply_remove remove_chars (apply_symbols (apply_map accent_map
         (replace [58] [] (replace [59] [] (replace [63] []
         (replace [33] [] (replace [46] []
         (replace [34] [] (replace [39] [] (replace [38] []
         (replace [125] [] (replace [123] [] (replace [93] [] (replace [91] []
         (replace [95] [45] (sub_underscore (sub_whitespace U (lower U name))))))))))))))))))))"

lemma sanitize_folder_name_cases:
  "sanitize_folder_name U name = unknown \<or>
   (sanitize_folder_name U name = strip_chars [45] (collapse_dashes (sanitize_filtered U name)) \<and>
    strip_chars [45] (collapse_dashes (sanitize_filtered U name)) \<noteq> [])"
  unfolding sanitize_folder_name_def sanitize_filtered_def Let_def by simp

text \<open>The character class \<^verbatim>\<open>[a-z0-9-]\<close> of the specification.\<close>

definition slug_char :: "uchar \<Rightarrow> bool" where
  "slug_char c = (is_az c \<or> (48 \<le> c \<and> c \<le> 57) \<or> c = 45)"

text \<open>
  C2, as stated: the output has only characters of \<^verbatim>\<open>[a-z0-9-]\<close> (\<open>slug_char\<close>). The
  final filter keeps every character for which \<^verbatim>\<open>str.isalnum()\<close> holds, and the accent
  map has no entry for U+0159 (r with caron): the name \<^verbatim>\<open>Dvo\<close>, U+0159, U+00E1,
  \<^verbatim>\<open>k\<close> gives \<^verbatim>\<open>dvo\<close>, U+0159, \<^verbatim>\<open>ak\<close>.
\<close>

theorem sanitize_domain_counterexample:
  "sanitize_folder_name py_unicode (ustr ''Dvo'' @ [345, 225] @ ustr ''k'') =
     ustr ''dvo'' @ [345] @ ustr ''ak'' \<and>
   \<not> list_all slug_char (sanitize_folder_name py_unicode (ustr ''Dvo'' @ [345, 225] @ ustr ''k''))"
  unfolding sanitize_dvorak by (simp add: ustr_def slug_char_def is_az_def)

lemma unknown_no_dash: "45 \<notin> set unknown"
  by (simp add: unknown_def ustr_def)

text \<open>
  C2, amended: for every input string and every character database, the output of
  \<open>sanitize_folder_name\<close> is the fallback \<^verbatim>\<open>unknown\<close> or has only characters that are
  alphanumeric in the sense of \<^verbatim>\<open>str.isalnum()\<close> or the dash; it is not empty, has no
  leading dash, no trailing dash and no two dashes in a row.
\<close>

theorem sanitize_character_domain:
  "(sanitize_folder_name U s = unknown \<or>
      list_all (\<lambda>c. isalnum U c \<or> c = 45) (sanitize_folder_name U s)) \<and>
   sanitize_folder_name U s \<noteq> [] \<and>
   hd (sanitize_folder_name U s) \<noteq> 45 \<and>
   last (sanitize_folder_name U s) \<noteq> 45 \<and>
   \<not> contains [45, 45] (sanitize_folder_name U s)"
proof (cases "sanitize_folder_name U s = unknown")
  case True
  then show ?thesis by (simp add: unknown_def ustr_def)
next
  case False
  let ?f = "sanitize_filtered U s"
  let ?r = "strip_chars [45] (collapse_dashes ?f)"
  from False sanitize_folder_name_cases [of U s]
  have r: "sanitize_folder_name U s = ?r" and ne: "?r \<noteq> []" by auto
  have "list_all (\<lambda>c. isalnum U c \<or> c = 45) ?f"
    by (simp add: sanitize_filtered_def list_all_iff)
  then have "list_all (\<lambda>c. isalnum U c \<or> c = 45) (collapse_dashes ?f)"
    by (rule list_all_collapse_dashes) simp
  then have dom: "list_all (\<lambda>c. isalnum U c \<or> c = 45) ?r"
    using set_strip_chars [of "[45]" "collapse_dashes ?f"] by (auto simp: list_all_iff)
  have h: "hd ?r \<noteq> 45" using hd_strip_chars [OF ne] by simp
  have l: "last ?r \<noteq> 45" using last_strip_chars [OF ne] by simp
  have "\<not> sublist [45, 45] ?r"
  proof
    assume "sublist [45, 45] ?r"
    then have "sublist [45, 45] (collapse_dashes ?f)"
      using sublist_strip_chars by (rule sublist_order.order.trans)
    then show False using collapse_dashes_no_double [of ?f] by (simp add: contains_iff_sublist)
  qed
  then have d: "\<not> contains [45, 45] ?r" by (simp add: contains_iff_sublist)
  show ?thesis using r ne dom h l d by simp
qed

section \<open>The reconciler (artist\_folder\_reconciler.py)\<close>

subsection \<open>slugify and alternative\_slugify\<close>

text \<open>
  \<open>slugify\<close> has its own copy of the accent map; the two dictionary literals are
  the same, entry for entry.
\<close>

definition slugify :: "unicode_db \<Rightarrow> ustring \<Rightarrow> ustring" where
  "slugify U text =
     (let sanitized = replace [32] [45] (lower U text);
          sanitized = apply_map accent_map sanitized;
          sanitized = filter (\<lambda>c. isalnum U c \<or> c = 45) sanitized;
          sanitized = collapse_dashes sanitized;
          sanitized = strip_chars [45] sanitized
      in sanitized)"

text \<open>
  The four patterns of \<open>alternative_slugify\<close>, all of the shape whitespace, a fixed
  opening, \<^verbatim>\<open>.*\<close>, an optional closing parenthesis, \<^verbatim>\<open>$\<close>, matched with
  \<^verbatim>\<open>re.IGNORECASE\<close>. \<open>ieq p x\<close>: the pattern letter \<open>p\<close> (one of the lower-case letters of
  \<^verbatim>\<open>featuring\<close>, or a full stop) matches the character \<open>x\<close>; for \<^verbatim>\<open>i\<close> Python also
  accepts U+0130 and U+0131.
\<close>

definition ieq :: "uchar \<Rightarrow> uchar \<Rightarrow> bool" where
  "ieq p x = (x = p \<or> (is_az p \<and> x + 32 = p) \<or> (p = 105 \<and> (x = 304 \<or> x = 305)))"

fun imatch :: "ustring \<Rightarrow> ustring \<Rightarrow> bool" where
  "imatch [] s = True"
| "imatch (p # ps) [] = False"
| "imatch (p # ps) (x # xs) = (ieq p x \<and> imatch ps xs)"

text \<open>
  \<^verbatim>\<open>.*$\<close> against the rest of the text: the dot takes no newline (code point 10), and
  \<^verbatim>\<open>$\<close> holds at the end and before a newline that ends the text. The result is the
  number of characters matched.
\<close>

definition dot_star_end :: "ustring \<Rightarrow> nat option" where
  "dot_star_end rest =
     (if 10 \<notin> set rest then Some (length rest)
      else if last rest = 10 \<and> 10 \<notin> set (butlast rest) then Some (length rest - 1)
      else None)"

text \<open>\<^verbatim>\<open>.*\)$\<close> against the rest of the text (code point 41 is the closing parenthesis).\<close>

definition paren_end :: "ustring \<Rightarrow> nat option" where
  "paren_end rest =
     (if rest \<noteq> [] \<and> last rest = 41 \<and> 10 \<notin> set (butlast rest) then Some (length rest)
      else if rest \<noteq> [] \<and> last rest = 10 \<and> butlast rest \<noteq> [] \<and> last (butlast rest) = 41 \<and>
              10 \<notin> set (butlast (butlast rest))
      then Some (length rest - 1)
      else None)"

datatype suffix_pattern = ParenSuffix | WordSuffix ustring

text \<open>
  A match that starts at the head of \<open>s\<close>: its length. The whitespace run is taken
  whole, because no opening starts with a whitespace character.
\<close>

definition match_here :: "unicode_db \<Rightarrow> suffix_pattern \<Rightarrow> ustring \<Rightarrow> nat option" where
  "match_here U p s =
     (if s \<noteq> [] \<and> isspace U (hd s) then
        let ws = takeWhile (isspace U) s; rest = dropWhile (isspace U) s in
        (case p of
           ParenSuffix \<Rightarrow>
             (case rest of
                [] \<Rightarrow> None
              | x # rest' \<Rightarrow>
                  if x = 40 then map_option (\<lambda>n. length ws + 1 + n) (paren_end rest') else None)
         | WordSuffix w \<Rightarrow>
             if imatch w rest
             then map_option (\<lambda>n. length ws + length w + n) (dot_star_end (drop (length w) rest))
             else None)
      else None)"

lemma match_here_pos:
  assumes "match_here U p s = Some n"
  shows "0 < n"
proof -
  from assms have s: "s \<noteq> []" "isspace U (hd s)"
    by (auto simp: match_here_def split: if_splits)
  then have "takeWhile (isspace U) s \<noteq> []"
    by (cases s) auto
  then have "0 < length (takeWhile (isspace U) s)" by simp
  with assms s show ?thesis
    by (auto simp: match_here_def Let_def split: suffix_pattern.splits list.splits if_splits)
qed

text \<open>\<^verbatim>\<open>re.sub(pattern, '', text, flags=re.IGNORECASE)\<close>\<close>

function re_sub_suffix :: "unicode_db \<Rightarrow> suffix_pattern \<Rightarrow> ustring \<Rightarrow> ustring" where
  "re_sub_suffix U p [] = []"
| "re_sub_suffix U p (c # cs) =
     (case match_here U p (c # cs) of
        Some n \<Rightarrow> re_sub_suffix U p (drop n (c # cs))
      | None \<Rightarrow> c # re_sub_suffix U p cs)"
  by pat_completeness auto
termination
proof (relation "measure (\<lambda>(U, p, s). length s)")
  show "wf (measure (\<lambda>(U, p, s). length s))" by simp
next
  fix U :: unicode_db and p c cs n
  assume "match_here U p (c # cs) = Some n"
  then have "0 < n" by (rule match_here_pos)
  then show "((U, p, drop n (c # cs)), U, p, c # cs) \<in> measure (\<lambda>(U, p, s). length s)"
    by simp
next
  fix U :: unicode_db and p :: suffix_pattern and c :: nat and cs :: "nat list"
  show "((U, p, cs), U, p, c # cs) \<in> measure (\<lambda>(U, p, s). length s)" by simp
qed

definition suffix_patterns :: "suffix_pattern list" where
  "suffix_patterns =
     [ParenSuffix, WordSuffix (ustr ''featuring''), WordSuffix (ustr ''feat.''),
      WordSuffix (ustr ''ft.'')]"

text \<open>The local list \<open>alternatives\<close>, before duplicates are removed.\<close>

definition alternatives :: "unicode_db \<Rightarrow> ustring \<Rightarrow> ustring list" where
  "alternatives U text =
     (let alternatives = [slugify U text];
          alternatives =
            (if prefix (ustr ''the '') (lower U text)
             then alternatives @ [slugify U (drop 4 text)] else alternatives);
          text_lower = lower U text;
          alternatives =
            (if 38 \<in> set text_lower
             then alternatives @ [slugify U (replace [38] (ustr ''and'') text_lower)]
             else alternatives)
      in foldl (\<lambda>alternatives pattern.
                  let cleaned = re_sub_suffix U pattern text in
                  if cleaned \<noteq> text then alternatives @ [slugify U cleaned] else alternatives)
           alternatives suffix_patterns)"

text \<open>
  \<^verbatim>\<open>list(set(alternatives))\<close>: the distinct slugs, in the order in which Python
  iterates over the set. That order depends on the hashes of the run, so it is a
  parameter \<open>ord\<close> of the model.
\<close>

definition alternative_slugify ::
  "unicode_db \<Rightarrow> (ustring list \<Rightarrow> ustring list) \<Rightarrow> ustring \<Rightarrow> ustring list" where
  "alternative_slugify U ord text = ord (remdups (alternatives U text))"


lemmas slugify_eval =
  slugify_def Let_def py_unicode_eval strip_chars_def apply_map_def accent_map_def
  collapse_dashes_id collapse_dashes_step

lemmas alternatives_eval =
  alternatives_def suffix_patterns_def match_here_def ieq_def is_az_def dot_star_end_def
  paren_end_def

lemma slugify_bangs: "slugify py_unicode (ustr ''!!!'') = []"
  by (simp add: slugify_eval)

lemma sanitize_bangs: "sanitize_folder_name py_unicode (ustr ''!!!'') = ustr ''unknown''"
  by (simp add: sanitize_eval)

lemma slugify_the_puzzle: "slugify py_unicode (ustr ''The_Puzzle'') = ustr ''thepuzzle''"
  by (simp add: slugify_eval)

lemma sanitize_the_puzzle:
  "sanitize_folder_name py_unicode (ustr ''The_Puzzle'') = ustr ''the-puzzle''"
  by (simp add: sanitize_eval)

lemma alternatives_the_puzzle:
  "alternatives py_unicode (ustr ''The_Puzzle'') = [ustr ''thepuzzle'']"
proof -
  have l: "lower py_unicode (ustr ''The_Puzzle'') = ustr ''the_puzzle''"
    by (simp add: py_unicode_eval)
  have r: "re_sub_suffix py_unicode p (ustr ''The_Puzzle'') = ustr ''The_Puzzle''" for p
    by (simp add: py_unicode_eval match_here_def)
  show ?thesis
    unfolding alternatives_def Let_def l r suffix_patterns_def slugify_the_puzzle
    by (simp add: ustr_def)
qed

subsection \<open>difflib.SequenceMatcher\<close>

text \<open>
  \<open>similarity_score\<close> calls \<^verbatim>\<open>SequenceMatcher(None, a, b).ratio()\<close> of Python's standard
  library (Lib/difflib.py). With no junk function and \<^verbatim>\<open>autojunk\<close> left on, the
  matcher drops from its index \<^verbatim>\<open>b2j\<close> every character of \<open>b\<close> that occurs more than
  \<^verbatim>\<open>len(b) // 100 + 1\<close> times, when \<open>b\<close> has 200 characters or more.
\<close>

definition bpopular :: "ustring \<Rightarrow> uchar set" where
  "bpopular b =
     (if 200 \<le> length b then {x \<in> set b. length b div 100 + 1 < count_list b x} else {})"

definition b2j :: "ustring \<Rightarrow> uchar \<Rightarrow> nat list" where
  "b2j b x = (if x \<in> bpopular b then [] else filter (\<lambda>j. b ! j = x) [0..<length b])"

type_synonym match = "nat \<times> nat \<times> nat"

text \<open>
  The inner loop of \<^verbatim>\<open>find_longest_match\<close> for one \<open>i\<close>, over the indices \<open>j\<close> of
  \<^verbatim>\<open>b2j[a[i]]\<close>. \<^verbatim>\<open>j2len.get(j-1, 0)\<close> is \<open>0\<close> for \<open>j = 0\<close>, since no key is negative.
\<close>

fun flm_row ::
  "nat \<Rightarrow> nat \<Rightarrow> nat \<Rightarrow> (nat \<Rightarrow> nat) \<Rightarrow> nat list \<Rightarrow> (nat \<Rightarrow> nat) \<times> match \<Rightarrow> (nat \<Rightarrow> nat) \<times> match"
where
  "flm_row i blo bhi j2len [] st = st"
| "flm_row i blo bhi j2len (j # js) (newj2len, best) =
     (if j < blo then flm_row i blo bhi j2len js (newj2len, best)
      else if bhi \<le> j then (newj2len, best)
      else
        let k = (if j = 0 then 0 else j2len (j - 1)) + 1;
            newj2len = newj2len(j := k);
            best = (if snd (snd best) < k then (i + 1 - k, j + 1 - k, k) else best)
        in flm_row i blo bhi j2len js (newj2len, best))"

definition flm_scan :: "ustring \<Rightarrow> ustring \<Rightarrow> nat \<Rightarrow> nat \<Rightarrow> nat \<Rightarrow> nat \<Rightarrow> (nat \<Rightarrow> nat) \<times> match" where
  "flm_scan a b alo ahi blo bhi =
     foldl (\<lambda>(j2len, best) i. flm_row i blo bhi j2len (b2j b (a ! i)) (\<lambda>_. 0, best))
       (\<lambda>_. 0, (alo, blo, 0)) [alo..<ahi]"

text \<open>
  The two loops that extend the block over equal characters on both sides. The junk
  set is empty, so \<^verbatim>\<open>isbjunk\<close> is false and the two loops after them do nothing.
\<close>

function extend_left :: "ustring \<Rightarrow> ustring \<Rightarrow> nat \<Rightarrow> nat \<Rightarrow> match \<Rightarrow> match" where
  "extend_left a b alo blo (besti, bestj, bestsize) =
     (if alo < besti \<and> blo < bestj \<and> a ! (besti - 1) = b ! (bestj - 1)
      then extend_left a b alo blo (besti - 1, bestj - 1, bestsize + 1)
      else (besti, bestj, bestsize))"
  by pat_completeness auto
termination
  by (relation "measure (\<lambda>(a, b, alo, blo, besti, bestj, bestsize). besti)") auto

function extend_right :: "ustring \<Rightarrow> ustring \<Rightarrow> nat \<Rightarrow> nat \<Rightarrow> match \<Rightarrow> match" where
  "extend_right a b ahi bhi (besti, bestj, bestsize) =
     (if besti + bestsize < ahi \<and> bestj + bestsize < bhi \<and>
         a ! (besti + bestsize) = b ! (bestj + bestsize)
      then extend_right a b ahi bhi (besti, bestj, bestsize + 1)
      else (besti, bestj, bestsize))"
  by pat_completeness auto
termination
  by (relation "measure (\<lambda>(a, b, ahi, bhi, besti, bestj, bestsize). ahi - (besti + bestsize))") auto

declare extend_left.simps [simp del] extend_right.simps [simp del]

definition find_longest_match :: "ustring \<Rightarrow> ustring \<Rightarrow> nat \<Rightarrow> nat \<Rightarrow> nat \<Rightarrow> nat \<Rightarrow> match" where
  "find_longest_match a b alo ahi blo bhi =
     extend_right a b ahi bhi (extend_left a b alo blo (snd (flm_scan a b alo ahi blo bhi)))"


text \<open>Where a block may lie: inside both ranges, and at their start when it is empty.\<close>

definition row_ok :: "nat \<Rightarrow> nat \<Rightarrow> nat \<Rightarrow> (nat \<Rightarrow> nat) \<Rightarrow> bool" where
  "row_ok n blo bhi f = (\<forall>j. f j \<le> n \<and> (0 < f j \<longrightarrow> blo \<le> j \<and> j < bhi \<and> f j \<le> j + 1 - blo))"

definition best_ok :: "nat \<Rightarrow> nat \<Rightarrow> nat \<Rightarrow> nat \<Rightarrow> match \<Rightarrow> bool" where
  "best_ok alo ahi blo bhi m =
     (case m of (i, j, k) \<Rightarrow>
        alo \<le> i \<and> blo \<le> j \<and> (k = 0 \<longrightarrow> i = alo \<and> j = blo) \<and>
        (0 < k \<longrightarrow> i + k \<le> ahi \<and> j + k \<le> bhi))"

lemma row_ok_le: "row_ok n blo bhi f \<Longrightarrow> f j \<le> n"
  by (simp add: row_ok_def)

lemma row_ok_pos: "row_ok n blo bhi f \<Longrightarrow> 0 < f j \<Longrightarrow> blo \<le> j \<and> j < bhi \<and> f j \<le> j + 1 - blo"
  by (simp add: row_ok_def)

lemma flm_row_ok:
  assumes "alo \<le> i" "i < ahi" "row_ok (i - alo) blo bhi j2len"
    and "row_ok (i + 1 - alo) blo bhi new" "best_ok alo ahi blo bhi best"
  shows "row_ok (i + 1 - alo) blo bhi (fst (flm_row i blo bhi j2len js (new, best))) \<and>
         best_ok alo ahi blo bhi (snd (flm_row i blo bhi j2len js (new, best)))"
  using assms(4,5)
proof (induction js arbitrary: new best)
  case Nil
  then show ?case by simp
next
  case (Cons j js)
  show ?case
  proof (cases "j < blo \<or> bhi \<le> j")
    case True
    then show ?thesis using Cons by auto
  next
    case False
    define k where "k = (if j = 0 then 0 else j2len (j - 1)) + 1"
    have "j2len (j - 1) \<le> i - alo"
      using assms(3) by (rule row_ok_le)
    then have k1: "k \<le> i + 1 - alo"
      using assms(1) unfolding k_def by (cases "j = 0") (simp_all add: Suc_diff_le)
    have k2: "k \<le> j + 1 - blo"
    proof (cases "j = 0 \<or> j2len (j - 1) = 0")
      case True
      then show ?thesis using False by (auto simp: k_def)
    next
      case F: False
      then have "0 < j2len (j - 1)" by simp
      from row_ok_pos [OF assms(3) this]
      have "j2len (j - 1) \<le> j - 1 + 1 - blo" and "blo \<le> j - 1" by auto
      then show ?thesis using F by (simp add: k_def)
    qed
    have kpos: "0 < k" by (simp add: k_def)
    have new': "row_ok (i + 1 - alo) blo bhi (new(j := k))"
      unfolding row_ok_def
    proof (intro allI)
      fix j'
      show "(new(j := k)) j' \<le> i + 1 - alo \<and>
            (0 < (new(j := k)) j' \<longrightarrow> blo \<le> j' \<and> j' < bhi \<and> (new(j := k)) j' \<le> j' + 1 - blo)"
        using row_ok_le [OF Cons.prems(1), of j'] row_ok_pos [OF Cons.prems(1), of j'] k1 k2 False
        by (cases "j' = j") auto
    qed
    define best' where "best' = (if snd (snd best) < k then (i + 1 - k, j + 1 - k, k) else best)"
    have best': "best_ok alo ahi blo bhi best'"
      using Cons.prems(2) k1 k2 kpos assms(1,2) False by (auto simp: best_ok_def best'_def)
    have eq: "flm_row i blo bhi j2len (j # js) (new, best) =
              flm_row i blo bhi j2len js (new(j := k), best')"
      using False by (simp add: k_def best'_def Let_def)
    show ?thesis unfolding eq by (rule Cons.IH [OF new' best'])
  qed
qed

lemma flm_scan_upto_ok:
  assumes "alo \<le> n" "n \<le> ahi"
  shows "row_ok (n - alo) blo bhi
           (fst (foldl (\<lambda>(j2len, best) i. flm_row i blo bhi j2len (b2j b (a ! i)) (\<lambda>_. 0, best))
                  (\<lambda>_. 0, (alo, blo, 0)) [alo..<n])) \<and>
         best_ok alo ahi blo bhi
           (snd (foldl (\<lambda>(j2len, best) i. flm_row i blo bhi j2len (b2j b (a ! i)) (\<lambda>_. 0, best))
                  (\<lambda>_. 0, (alo, blo, 0)) [alo..<n]))"
  using assms
proof (induction n)
  case 0
  then show ?case by (simp add: row_ok_def best_ok_def)
next
  case (Suc n)
  show ?case
  proof (cases "alo = Suc n")
    case True
    then show ?thesis by (simp add: row_ok_def best_ok_def)
  next
    case False
    with Suc.prems have le: "alo \<le> n" "n \<le> ahi" "n < ahi" by auto
    let ?st = "foldl (\<lambda>(j2len, best) i. flm_row i blo bhi j2len (b2j b (a ! i)) (\<lambda>_. 0, best))
                  (\<lambda>_. 0, (alo, blo, 0)) [alo..<n]"
    from Suc.IH [OF le(1,2)]
    have r: "row_ok (n - alo) blo bhi (fst ?st)" and bo: "best_ok alo ahi blo bhi (snd ?st)"
      by auto
    have z: "row_ok (n + 1 - alo) blo bhi (\<lambda>_. 0)" by (simp add: row_ok_def)
    have "[alo..<Suc n] = [alo..<n] @ [n]" using le(1) by simp
    then have "foldl (\<lambda>(j2len, best) i. flm_row i blo bhi j2len (b2j b (a ! i)) (\<lambda>_. 0, best))
                  (\<lambda>_. 0, (alo, blo, 0)) [alo..<Suc n] =
               flm_row n blo bhi (fst ?st) (b2j b (a ! n)) (\<lambda>_. 0, snd ?st)"
      by (simp add: case_prod_beta)
    moreover have "Suc n - alo = n + 1 - alo" by simp
    ultimately show ?thesis
      using flm_row_ok [OF le(1) le(3) r z bo, of "b2j b (a ! n)"] by simp
  qed
qed

lemma flm_scan_ok: "best_ok alo ahi blo bhi (snd (flm_scan a b alo ahi blo bhi))"
proof (cases "alo \<le> ahi")
  case True
  then show ?thesis using flm_scan_upto_ok [of alo ahi ahi] by (simp add: flm_scan_def)
next
  case False
  then show ?thesis by (simp add: flm_scan_def best_ok_def)
qed

lemma extend_left_ok:
  "best_ok alo ahi blo bhi m \<Longrightarrow> best_ok alo ahi blo bhi (extend_left a b alo blo m)"
proof (induction a b alo blo m rule: extend_left.induct)
  case (1 a b alo blo besti bestj bestsize)
  show ?case
  proof (cases "alo < besti \<and> blo < bestj \<and> a ! (besti - 1) = b ! (bestj - 1)")
    case True
    have e: "extend_left a b alo blo (besti, bestj, bestsize) =
             extend_left a b alo blo (besti - 1, bestj - 1, bestsize + 1)"
      by (subst extend_left.simps) (rule if_P [OF True])
    have "best_ok alo ahi blo bhi (besti - 1, bestj - 1, bestsize + 1)"
      using "1.prems" True by (auto simp: best_ok_def)
    then show ?thesis unfolding e by (rule "1.IH" [OF True])
  next
    case False
    have e: "extend_left a b alo blo (besti, bestj, bestsize) = (besti, bestj, bestsize)"
      by (subst extend_left.simps) (rule if_not_P [OF False])
    show ?thesis unfolding e by (rule "1.prems")
  qed
qed

lemma extend_right_ok:
  "best_ok alo ahi blo bhi m \<Longrightarrow> best_ok alo ahi blo bhi (extend_right a b ahi bhi m)"
proof (induction a b ahi bhi m rule: extend_right.induct)
  case (1 a b ahi bhi besti bestj bestsize)
  show ?case
  proof (cases "besti + bestsize < ahi \<and> bestj + bestsize < bhi \<and>
         a ! (besti + bestsize) = b ! (bestj + bestsize)")
    case True
    have e: "extend_right a b ahi bhi (besti, bestj, bestsize) =
             extend_right a b ahi bhi (besti, bestj, bestsize + 1)"
      by (subst extend_right.simps) (rule if_P [OF True])
    have "best_ok alo ahi blo bhi (besti, bestj, bestsize + 1)"
      using "1.prems" True by (auto simp: best_ok_def)
    then show ?thesis unfolding e by (rule "1.IH" [OF True])
  next
    case False
    have e: "extend_right a b ahi bhi (besti, bestj, bestsize) = (besti, bestj, bestsize)"
      by (subst extend_right.simps) (rule if_not_P [OF False])
    show ?thesis unfolding e by (rule "1.prems")
  qed
qed

lemma find_longest_match_ok: "best_ok alo ahi blo bhi (find_longest_match a b alo ahi blo bhi)"
  unfolding find_longest_match_def
  by (intro extend_right_ok extend_left_ok flm_scan_ok)

lemma find_longest_match_bounds:
  assumes "find_longest_match a b alo ahi blo bhi = (i, j, k)" "k \<noteq> 0"
  shows "alo \<le> i" "i + k \<le> ahi" "blo \<le> j" "j + k \<le> bhi"
  using find_longest_match_ok [of alo ahi blo bhi a b] assms by (auto simp: best_ok_def)

text \<open>
  The loop of \<^verbatim>\<open>get_matching_blocks\<close>. The head of \<open>queue\<close> is the end of Python's
  list, which \<^verbatim>\<open>queue.pop()\<close> takes.
\<close>

function gmb_loop ::
  "ustring \<Rightarrow> ustring \<Rightarrow> (nat \<times> nat \<times> nat \<times> nat) list \<Rightarrow> match list \<Rightarrow> match list" where
  "gmb_loop a b [] matching_blocks = matching_blocks"
| "gmb_loop a b ((alo, ahi, blo, bhi) # queue) matching_blocks =
     (case find_longest_match a b alo ahi blo bhi of
        (i, j, k) \<Rightarrow>
          if k \<noteq> 0 then
            gmb_loop a b
              ((if i + k < ahi \<and> j + k < bhi then [(i + k, ahi, j + k, bhi)] else []) @
               (if alo < i \<and> blo < j then [(alo, i, blo, j)] else []) @ queue)
              (matching_blocks @ [(i, j, k)])
          else gmb_loop a b queue matching_blocks)"
  by pat_completeness auto
termination
  apply (relation "measure (\<lambda>(a, b, queue, blocks).
          sum_list (map (\<lambda>(alo, ahi, blo, bhi). 2 * (ahi - alo) + 1) queue))")
  apply simp
  subgoal for a b alo ahi blo bhi queue matching_blocks i y j k
    using find_longest_match_bounds [of a b alo ahi blo bhi i j k] by auto
  subgoal by simp
  done

declare gmb_loop.simps(2) [simp del]

text \<open>
  The rest of \<^verbatim>\<open>get_matching_blocks\<close>: sort the blocks, merge the adjacent ones, add
  the closing dummy block.
\<close>

fun merge_adjacent :: "match \<Rightarrow> match list \<Rightarrow> match list \<Rightarrow> match list" where
  "merge_adjacent (i1, j1, k1) [] non_adjacent =
     (if k1 \<noteq> 0 then non_adjacent @ [(i1, j1, k1)] else non_adjacent)"
| "merge_adjacent (i1, j1, k1) ((i2, j2, k2) # rest) non_adjacent =
     (if i1 + k1 = i2 \<and> j1 + k1 = j2 then merge_adjacent (i1, j1, k1 + k2) rest non_adjacent
      else merge_adjacent (i2, j2, k2) rest
             (if k1 \<noteq> 0 then non_adjacent @ [(i1, j1, k1)] else non_adjacent))"

definition get_matching_blocks :: "ustring \<Rightarrow> ustring \<Rightarrow> match list" where
  "get_matching_blocks a b =
     merge_adjacent (0, 0, 0) (sort (gmb_loop a b [(0, length a, 0, length b)] [])) [] @
     [(length a, length b, 0)]"

text \<open>
  \<^verbatim>\<open>ratio()\<close> is \<^verbatim>\<open>2.0 * matches / length\<close>, or \<^verbatim>\<open>1.0\<close> when both strings are empty.
  Python rounds the quotient to a double; the model keeps the quotient itself, a
  rational number. The comparisons with \<open>0\<close>, with \<open>1\<close> and between two scores that
  the claims make come out the same on both.
\<close>

definition ratio :: "ustring \<Rightarrow> ustring \<Rightarrow> rat" where
  "ratio a b =
     (let matches = sum_list (map (\<lambda>(i, j, k). k) (get_matching_blocks a b));
          len = length a + length b
      in if len \<noteq> 0 then 2 * of_nat matches / of_nat len else 1)"

definition similarity_score :: "unicode_db \<Rightarrow> ustring \<Rightarrow> ustring \<Rightarrow> rat" where
  "similarity_score U a b = ratio (lower U a) (lower U b)"


subsection \<open>Claims about slugify\<close>

text \<open>
  C3 says that no slug-producing function returns the empty string, \<open>slugify\<close>
  included. \<open>sanitize_folder_name\<close> never does (\<open>sanitize_nonempty\<close>), but \<open>slugify\<close>,
  whose docstring promises the same logic, has no fallback: for the artist name
  \<^verbatim>\<open>!!!\<close> it returns the empty string where the sanitizer returns \<^verbatim>\<open>unknown\<close>.
\<close>

theorem slugify_empty_for_bangs:
  "slugify py_unicode (ustr ''!!!'') = [] \<and>
   sanitize_folder_name py_unicode (ustr ''!!!'') = unknown"
  using slugify_bangs sanitize_bangs by (simp add: unknown_def)

text \<open>
  C4 says that the alternatives of a name contain its canonical slug, that is, that
  \<open>slugify\<close> agrees with \<open>sanitize_folder_name\<close>. \<open>slugify\<close> has neither the underscore
  step nor the symbol, removal and Greek maps: for \<^verbatim>\<open>The_Puzzle\<close> it gives
  \<^verbatim>\<open>thepuzzle\<close>, the only alternative, and the canonical slug \<^verbatim>\<open>the-puzzle\<close> is not
  among the alternatives.
\<close>

theorem alternatives_miss_canonical_slug:
  "alternatives py_unicode (ustr ''The_Puzzle'') = [ustr ''thepuzzle''] \<and>
   sanitize_folder_name py_unicode (ustr ''The_Puzzle'') = ustr ''the-puzzle'' \<and>
   sanitize_folder_name py_unicode (ustr ''The_Puzzle'') \<notin>
     set (alternatives py_unicode (ustr ''The_Puzzle''))"
  unfolding alternatives_the_puzzle sanitize_the_puzzle by (simp add: ustr_def)

subsection \<open>find\_potential\_matches\<close>

text \<open>
  One dictionary of \<open>get_database_artists\<close>. A row of the table \<^verbatim>\<open>artists\<close> is
  \<open>(id, name, discogs_id)\<close>.
\<close>

record artist =
  artist_id :: int
  artist_name :: ustring
  discogs_id :: "int option"
  slug :: ustring
  alternative_slugs :: "ustring list"

definition get_database_artists ::
  "unicode_db \<Rightarrow> (ustring list \<Rightarrow> ustring list) \<Rightarrow> (int \<times> ustring \<times> int option) list \<Rightarrow> artist list"
where
  "get_database_artists U ord rows =
     map (\<lambda>(i, n, d).
            \<lparr>artist_id = i, artist_name = n, discogs_id = d, slug = slugify U n,
             alternative_slugs = alternative_slugify U ord n\<rparr>) rows"

text \<open>
  \<open>entries\<close> is what \<^verbatim>\<open>iterdir()\<close> yields before it ends or raises: each entry with
  its name and whether it is a directory. Names that start with a full stop are left
  out.
\<close>

definition get_public_artist_folders :: "(ustring \<times> bool) list \<Rightarrow> ustring set" where
  "get_public_artist_folders entries =
     set (map fst (filter (\<lambda>(n, is_dir). is_dir \<and> \<not> prefix [46] n) entries))"

definition matched_artists :: "artist list \<Rightarrow> ustring set \<Rightarrow> int set" where
  "matched_artists db_artists public_folders =
     set (map artist_id
       (filter (\<lambda>a. list_ex (\<lambda>slug. slug \<in> public_folders) (alternative_slugs a)) db_artists))"

definition unmatched_artists :: "artist list \<Rightarrow> ustring set \<Rightarrow> artist list" where
  "unmatched_artists db_artists public_folders =
     filter (\<lambda>a. artist_id a \<notin> matched_artists db_artists public_folders) db_artists"

definition matched_folders :: "artist list \<Rightarrow> ustring set \<Rightarrow> ustring set" where
  "matched_folders db_artists public_folders =
     set (List.map_filter
       (\<lambda>a. if artist_id a \<in> matched_artists db_artists public_folders
            then find (\<lambda>slug. slug \<in> public_folders) (alternative_slugs a) else None)
       db_artists)"

definition orphaned_folders :: "artist list \<Rightarrow> ustring set \<Rightarrow> ustring set" where
  "orphaned_folders db_artists public_folders =
     public_folders - matched_folders db_artists public_folders"

text \<open>The list \<open>matches\<close> of one folder: the inner loops over the unmatched artists.\<close>

definition folder_matches ::
  "unicode_db \<Rightarrow> rat \<Rightarrow> ustring \<Rightarrow> artist list \<Rightarrow> (ustring \<times> rat) list" where
  "folder_matches U threshold folder unmatched =
     concat (map (\<lambda>a.
       (let name_similarity = similarity_score U folder (artist_name a) in
          if threshold \<le> name_similarity then [(artist_name a, name_similarity)] else []) @
       concat (map (\<lambda>slug.
          let slug_similarity = similarity_score U folder slug in
          if threshold \<le> slug_similarity then [(artist_name a, slug_similarity)] else [])
         (alternative_slugs a))) unmatched)"

text \<open>
  The dictionary \<open>unique_matches\<close>, as an association list in insertion order: a new
  name goes to the end, a better score replaces the old one in place.
\<close>

definition unique_matches :: "(ustring \<times> rat) list \<Rightarrow> (ustring \<times> rat) list" where
  "unique_matches matches =
     foldl (\<lambda>d (name, score).
              case map_of d name of
                None \<Rightarrow> AList.update name score d
              | Some old \<Rightarrow> if old < score then AList.update name score d else d)
       [] matches"

text \<open>\<^verbatim>\<open>sorted(..., key=lambda x: x[1], reverse=True)\<close>: stable, best score first.\<close>

definition sorted_matches :: "(ustring \<times> rat) list \<Rightarrow> (ustring \<times> rat) list" where
  "sorted_matches d = sort_key (\<lambda>(name, score). - score) d"

text \<open>The dictionary \<open>potential_matches\<close>, as a map from folder names.\<close>

definition find_potential_matches ::
  "unicode_db \<Rightarrow> (ustring list \<Rightarrow> ustring list) \<Rightarrow> (int \<times> ustring \<times> int option) list \<Rightarrow>
   (ustring \<times> bool) list \<Rightarrow> rat \<Rightarrow> ustring \<Rightarrow> (ustring \<times> rat) list option" where
  "find_potential_matches U ord rows entries threshold =
     (let db_artists = get_database_artists U ord rows;
          public_folders = get_public_artist_folders entries;
          unmatched = unmatched_artists db_artists public_folders;
          orphaned = orphaned_folders db_artists public_folders
      in (\<lambda>folder.
            if folder \<in> orphaned then
              (let matches = folder_matches U threshold folder unmatched in
               if matches \<noteq> [] then Some (sorted_matches (unique_matches matches)) else None)
            else None))"

text \<open>The number of candidate matches in a result: the lengths of its lists, added up.\<close>

definition candidate_count ::
  "(ustring \<Rightarrow> (ustring \<times> rat) list option) \<Rightarrow> ustring set \<Rightarrow> nat" where
  "candidate_count result folders =
     (\<Sum>folder\<in>folders. case result folder of None \<Rightarrow> 0 | Some l \<Rightarrow> length l)"

lemma keys_update: "fst ` set (AList.update k v d) = insert k (fst ` set d)"
  by (induction d) auto

lemma unique_matches_step_keys:
  "set (map fst (case map_of d name of
                   None \<Rightarrow> AList.update name score d
                 | Some old \<Rightarrow> if old < score then AList.update name score d else d)) =
   insert name (set (map fst d))"
proof (cases "map_of d name")
  case None
  then show ?thesis by (simp add: keys_update)
next
  case (Some old)
  then have "name \<in> fst ` set d"
    by (metis map_of_eq_None_iff option.distinct(1))
  then show ?thesis using Some by (auto simp: keys_update)
qed

lemma unique_matches_step_distinct:
  "distinct (map fst d) \<Longrightarrow>
   distinct (map fst (case map_of d name of
                   None \<Rightarrow> AList.update name score d
                 | Some old \<Rightarrow> if old < score then AList.update name score d else d))"
  by (cases "map_of d name") (auto simp: distinct_update)

lemma foldl_unique_keys:
  "set (map fst (foldl (\<lambda>d (name, score).
              case map_of d name of
                None \<Rightarrow> AList.update name score d
              | Some old \<Rightarrow> if old < score then AList.update name score d else d) d ms)) =
   set (map fst d) \<union> fst ` set ms"
proof (induction ms arbitrary: d)
  case Nil
  then show ?case by simp
next
  case (Cons m ms)
  obtain name score where m: "m = (name, score)" by (cases m)
  show ?case
    unfolding m foldl_Cons prod.case Cons.IH unique_matches_step_keys by auto
qed

lemma foldl_unique_distinct:
  "distinct (map fst d) \<Longrightarrow>
   distinct (map fst (foldl (\<lambda>d (name, score).
              case map_of d name of
                None \<Rightarrow> AList.update name score d
              | Some old \<Rightarrow> if old < score then AList.update name score d else d) d ms))"
proof (induction ms arbitrary: d)
  case Nil
  then show ?case by simp
next
  case (Cons m ms)
  obtain name score where m: "m = (name, score)" by (cases m)
  show ?case
    unfolding m foldl_Cons prod.case
    by (rule Cons.IH) (rule unique_matches_step_distinct [OF Cons.prems])
qed

lemma unique_matches_keys: "set (map fst (unique_matches ms)) = fst ` set ms"
  unfolding unique_matches_def foldl_unique_keys by simp

lemma unique_matches_distinct: "distinct (map fst (unique_matches ms))"
  unfolding unique_matches_def by (rule foldl_unique_distinct) simp

lemma length_unique_matches: "length (unique_matches ms) = card (fst ` set ms)"
proof -
  have "length (unique_matches ms) = length (map fst (unique_matches ms))" by simp
  also have "\<dots> = card (set (map fst (unique_matches ms)))"
    using unique_matches_distinct [of ms] by (rule distinct_card [symmetric])
  finally show ?thesis by (simp only: unique_matches_keys)
qed

lemma sorted_matches_keys: "fst ` set (sorted_matches d) = fst ` set d"
  by (simp add: sorted_matches_def)

lemma length_sorted_matches: "length (sorted_matches d) = length d"
  by (simp add: sorted_matches_def)

lemma folder_matches_names:
  "fst ` set (folder_matches U threshold folder unmatched) \<subseteq> artist_name ` set unmatched"
  by (auto simp: folder_matches_def Let_def split: if_splits)

lemma folder_matches_mono:
  assumes "t1 \<le> t2"
  shows "set (folder_matches U t2 folder unmatched) \<subseteq> set (folder_matches U t1 folder unmatched)"
proof
  fix x
  assume "x \<in> set (folder_matches U t2 folder unmatched)"
  then show "x \<in> set (folder_matches U t1 folder unmatched)"
    using assms by (fastforce simp: folder_matches_def Let_def split: if_splits)
qed

lemma unmatched_artists_no_slug:
  assumes "a \<in> set (unmatched_artists db_artists public_folders)"
  shows "\<not> list_ex (\<lambda>slug. slug \<in> public_folders) (alternative_slugs a)"
proof
  assume "list_ex (\<lambda>slug. slug \<in> public_folders) (alternative_slugs a)"
  moreover from assms have "a \<in> set db_artists" by (simp add: unmatched_artists_def)
  ultimately have "artist_id a \<in> matched_artists db_artists public_folders"
    by (auto simp: matched_artists_def)
  with assms show False by (simp add: unmatched_artists_def)
qed

lemma get_database_artists_slugs:
  "a \<in> set (get_database_artists U ord rows) \<Longrightarrow>
   alternative_slugs a = alternative_slugify U ord (artist_name a)"
  by (auto simp: get_database_artists_def)

lemma find_potential_matches_names:
  assumes "find_potential_matches U ord rows entries threshold folder = Some l"
  shows "fst ` set l \<subseteq>
         artist_name ` set (unmatched_artists (get_database_artists U ord rows)
                              (get_public_artist_folders entries))"
proof -
  let ?un = "unmatched_artists (get_database_artists U ord rows) (get_public_artist_folders entries)"
  from assms have "l = sorted_matches (unique_matches (folder_matches U threshold folder ?un))"
    by (auto simp: find_potential_matches_def Let_def split: if_splits)
  then have "fst ` set l = fst ` set (folder_matches U threshold folder ?un)"
    using unique_matches_keys [of "folder_matches U threshold folder ?un"]
    by (simp add: sorted_matches_keys)
  then show ?thesis using folder_matches_names [of U threshold folder ?un] by simp
qed

text \<open>
  C5: an artist one of whose slugs is the name of a folder on disk is in
  \<open>matched_artists\<close>, no unmatched artist has its id or its name, and its name is in no
  candidate list of the result, whatever the threshold; every candidate of the result
  is the name of an unmatched artist.
\<close>

theorem exact_match_priority:
  assumes "(i, n, d) \<in> set rows"
    and "\<exists>slug \<in> set (alternative_slugify U ord n). slug \<in> get_public_artist_folders entries"
  shows "i \<in> matched_artists (get_database_artists U ord rows) (get_public_artist_folders entries) \<and>
         (\<forall>a \<in> set (unmatched_artists (get_database_artists U ord rows)
                       (get_public_artist_folders entries)).
            artist_id a \<noteq> i \<and> artist_name a \<noteq> n) \<and>
         (\<forall>folder l. find_potential_matches U ord rows entries threshold folder = Some l \<longrightarrow>
            n \<notin> fst ` set l \<and>
            fst ` set l \<subseteq> artist_name ` set (unmatched_artists (get_database_artists U ord rows)
                                               (get_public_artist_folders entries)))"
proof -
  let ?db = "get_database_artists U ord rows"
  let ?pf = "get_public_artist_folders entries"
  let ?a = "\<lparr>artist_id = i, artist_name = n, discogs_id = d, slug = slugify U n,
             alternative_slugs = alternative_slugify U ord n\<rparr>"
  from assms(1) have a: "?a \<in> set ?db"
    by (force simp: get_database_artists_def)
  from assms(2) have ex: "list_ex (\<lambda>slug. slug \<in> ?pf) (alternative_slugify U ord n)"
    by (simp add: list_ex_iff)
  have m: "i \<in> matched_artists ?db ?pf"
    unfolding matched_artists_def using a ex by force
  have un: "artist_id b \<noteq> i \<and> artist_name b \<noteq> n" if b: "b \<in> set (unmatched_artists ?db ?pf)" for b
  proof
    show "artist_id b \<noteq> i" using b m by (auto simp: unmatched_artists_def)
    show "artist_name b \<noteq> n"
    proof
      assume "artist_name b = n"
      moreover from b have "b \<in> set ?db" by (simp add: unmatched_artists_def)
      ultimately have "alternative_slugs b = alternative_slugify U ord n"
        using get_database_artists_slugs by blast
      with unmatched_artists_no_slug [OF b] ex show False by simp
    qed
  qed
  have c: "n \<notin> fst ` set l \<and> fst ` set l \<subseteq> artist_name ` set (unmatched_artists ?db ?pf)"
    if l: "find_potential_matches U ord rows entries threshold folder = Some l" for folder l
  proof -
    from find_potential_matches_names [OF l]
    have sub: "fst ` set l \<subseteq> artist_name ` set (unmatched_artists ?db ?pf)" .
    moreover have "n \<notin> artist_name ` set (unmatched_artists ?db ?pf)"
      using un by auto
    ultimately show ?thesis by auto
  qed
  show ?thesis using m un c by blast
qed

lemma folder_count_mono:
  assumes "t1 \<le> t2"
  shows "(case find_potential_matches U ord rows entries t2 folder of None \<Rightarrow> 0 | Some l \<Rightarrow> length l)
       \<le> (case find_potential_matches U ord rows entries t1 folder of None \<Rightarrow> 0 | Some l \<Rightarrow> length l)"
proof -
  let ?db = "get_database_artists U ord rows"
  let ?pf = "get_public_artist_folders entries"
  let ?un = "unmatched_artists ?db ?pf"
  let ?m1 = "folder_matches U t1 folder ?un"
  let ?m2 = "folder_matches U t2 folder ?un"
  have sub: "set ?m2 \<subseteq> set ?m1" by (rule folder_matches_mono [OF assms])
  show ?thesis
  proof (cases "folder \<in> orphaned_folders ?db ?pf \<and> ?m2 \<noteq> []")
    case True
    then have ne1: "?m1 \<noteq> []" using sub by auto
    have r2: "find_potential_matches U ord rows entries t2 folder = Some (sorted_matches (unique_matches ?m2))"
      using True by (simp add: find_potential_matches_def Let_def)
    have r1: "find_potential_matches U ord rows entries t1 folder = Some (sorted_matches (unique_matches ?m1))"
      using True ne1 by (simp add: find_potential_matches_def Let_def)
    have "card (fst ` set ?m2) \<le> card (fst ` set ?m1)"
      using sub by (intro card_mono) auto
    then show ?thesis
      unfolding r1 r2 by (simp add: length_sorted_matches length_unique_matches)
  next
    case False
    then have "find_potential_matches U ord rows entries t2 folder = None"
      by (auto simp: find_potential_matches_def Let_def)
    then show ?thesis by simp
  qed
qed

text \<open>
  C9: for the same rows and the same directory entries, a higher threshold never gives
  more candidate matches in the result of \<open>find_potential_matches\<close>.
\<close>

theorem threshold_monotone:
  assumes "t1 \<le> t2"
  shows "candidate_count (find_potential_matches U ord rows entries t2)
           (get_public_artist_folders entries)
       \<le> candidate_count (find_potential_matches U ord rows entries t1)
           (get_public_artist_folders entries)"
  unfolding candidate_count_def
  by (rule sum_mono) (rule folder_count_mono [OF assms])


lemma alternatives_bjork:
  "alternatives py_unicode [66, 106, 246, 114, 107] = [ustr ''bjork'']"
proof -
  have l: "lower py_unicode [66, 106, 246, 114, 107] = [98, 106, 246, 114, 107]"
    by (simp add: py_unicode_eval)
  have r: "re_sub_suffix py_unicode p [66, 106, 246, 114, 107] = [66, 106, 246, 114, 107]" for p
    by (simp add: py_unicode_eval match_here_def)
  have s: "slugify py_unicode [66, 106, 246, 114, 107] = ustr ''bjork''"
    by (simp add: slugify_eval)
  show ?thesis
    unfolding alternatives_def Let_def l r suffix_patterns_def s
    by (simp add: ustr_def)
qed

theorem exact_match_priority_witness:
  "(1 :: int, [66, 106, 246, 114, 107 :: nat], None :: int option) \<in>
     set [(1, [66, 106, 246, 114, 107], None)] \<and>
   (\<exists>slug \<in> set (alternative_slugify py_unicode (\<lambda>xs. xs) [66, 106, 246, 114, 107]).
      slug \<in> get_public_artist_folders [(ustr ''bjork'', True), (ustr ''bjrk'', True)]) \<and>
   1 \<in> matched_artists
         (get_database_artists py_unicode (\<lambda>xs. xs) [(1, [66, 106, 246, 114, 107], None)])
         (get_public_artist_folders [(ustr ''bjork'', True), (ustr ''bjrk'', True)])"
proof -
  have h1: "(1 :: int, [66, 106, 246, 114, 107 :: nat], None :: int option) \<in>
     set [(1, [66, 106, 246, 114, 107], None)]"
    by simp
  have h2: "\<exists>slug \<in> set (alternative_slugify py_unicode (\<lambda>xs. xs) [66, 106, 246, 114, 107]).
      slug \<in> get_public_artist_folders [(ustr ''bjork'', True), (ustr ''bjrk'', True)]"
    by (simp add: alternative_slugify_def alternatives_bjork get_public_artist_folders_def ustr_def)
  from h1 h2 exact_match_priority [OF h1 h2] show ?thesis by blast
qed

theorem threshold_monotone_witness:
  "(1 / 2 :: rat) \<le> 1 \<and>
   candidate_count
     (find_potential_matches py_unicode (\<lambda>xs. xs) [(1, [66, 106, 246, 114, 107], None)]
        [(ustr ''bjrk'', True)] 1)
     (get_public_artist_folders [(ustr ''bjrk'', True)])
   \<le> candidate_count
     (find_potential_matches py_unicode (\<lambda>xs. xs) [(1, [66, 106, 246, 114, 107], None)]
        [(ustr ''bjrk'', True)] (1 / 2))
     (get_public_artist_folders [(ustr ''bjrk'', True)])"
proof -
  have h: "(1 / 2 :: rat) \<le> 1" by simp
  from h threshold_monotone [OF h] show ?thesis by blast
qed

section \<open>The migrator (regenerate\_all\_with\_migration.py)\<close>

text \<open>
  The state of the directory \<^verbatim>\<open>base_path\<close>: the set of the paths, relative to it, of the
  directories that exist below it. A folder name is one path component, so the folder
  \<open>name\<close> exists when the path \<open>[name]\<close> is in the set.
\<close>

type_synonym path = "ustring list"
type_synonym fs = "path set"

datatype os_error = FileNotFoundError | DestinationExists

definition path_exists :: "fs \<Rightarrow> ustring \<Rightarrow> bool" where
  "path_exists d name = ([name] \<in> d)"

text \<open>\<^verbatim>\<open>os.rename(src, dst)\<close> of a directory: every path below \<open>src\<close> moves below \<open>dst\<close>.\<close>

definition rename_tree :: "path \<Rightarrow> path \<Rightarrow> fs \<Rightarrow> fs" where
  "rename_tree src dst d = (\<lambda>p. if prefix src p then dst @ drop (length src) p else p) ` d"

text \<open>
  \<^verbatim>\<open>shutil.move(base_path / old, base_path / new)\<close> of Python's standard library, on
  directories. When the destination is an existing directory, the source is moved
  inside it (to \<open>new/old\<close>), unless that path exists already; a destination that is the
  source itself is renamed onto itself, which changes nothing. Otherwise the source is
  renamed to the destination. A missing source makes the rename raise.
\<close>

definition shutil_move :: "fs \<Rightarrow> ustring \<Rightarrow> ustring \<Rightarrow> os_error + fs" where
  "shutil_move d old new =
     (if [new] \<in> d then
        (if old = new then Inr d
         else if [new, old] \<in> d then Inl DestinationExists
         else if [old] \<notin> d then Inl FileNotFoundError
         else Inr (rename_tree [old] [new, old] d))
      else if [old] \<notin> d then Inl FileNotFoundError
      else Inr (rename_tree [old] [new] d))"

record folder_migrator =
  dry_run :: bool
  migrations_needed :: "(ustring \<times> ustring) list"
  migrations_completed :: "(ustring \<times> ustring) list"
  conflicts :: "(ustring \<times> ustring) list"

definition analyze_folder :: "fs \<Rightarrow> folder_migrator \<Rightarrow> ustring \<Rightarrow> ustring \<Rightarrow> ustring" where
  "analyze_folder d self current_name expected_name =
     (if current_name = expected_name then ustr ''correct''
      else if \<not> path_exists d current_name then ustr ''missing''
      else if path_exists d expected_name then ustr ''conflict''
      else ustr ''needs_migration'')"

text \<open>
  \<open>migrate_folder\<close> returns the directory and the migrator as it leaves them, and its
  boolean result. An exception of \<^verbatim>\<open>shutil.move\<close> is caught and gives \<open>False\<close>.
\<close>

definition migrate_folder ::
  "fs \<Rightarrow> folder_migrator \<Rightarrow> ustring \<Rightarrow> ustring \<Rightarrow> (fs \<times> folder_migrator) \<times> bool" where
  "migrate_folder d self old_name new_name =
     (if dry_run self then ((d, self), True)
      else
        (case shutil_move d old_name new_name of
           Inr d' \<Rightarrow>
             ((d', self\<lparr>migrations_completed := migrations_completed self @ [(old_name, new_name)]\<rparr>),
              True)
         | Inl e \<Rightarrow> ((d, self), False)))"

text \<open>
  The body of the two loops of \<open>main\<close>, for one artist or release: \<open>existing_folder\<close> is
  what \<open>find_existing_folder\<close> returned (\<open>None\<close> and the empty string count as false),
  \<open>expected_folder\<close> the sanitized name, \<open>mappings\<close> the dictionary from old to new names.
\<close>

definition migrate_step ::
  "fs \<Rightarrow> folder_migrator \<Rightarrow> (ustring \<rightharpoonup> ustring) \<Rightarrow> ustring option \<Rightarrow> ustring \<Rightarrow>
   fs \<times> folder_migrator \<times> (ustring \<rightharpoonup> ustring)" where
  "migrate_step d migrator mappings existing_folder expected_folder =
     (case existing_folder of
        None \<Rightarrow> (d, migrator, mappings)
      | Some existing \<Rightarrow>
          if existing = [] then (d, migrator, mappings)
          else
            let status = analyze_folder d migrator existing expected_folder in
            if status = ustr ''needs_migration'' then
              (let migrator = migrator\<lparr>migrations_needed :=
                                migrations_needed migrator @ [(existing, expected_folder)]\<rparr> in
               case migrate_folder d migrator existing expected_folder of
                 ((d', migrator'), ok) \<Rightarrow>
                   (d', migrator', if ok then mappings(existing \<mapsto> expected_folder) else mappings))
            else if status = ustr ''conflict'' then
              (d, migrator\<lparr>conflicts := conflicts migrator @ [(existing, expected_folder)]\<rparr>, mappings)
            else (d, migrator, mappings))"

text \<open>
  C1, as stated: \<open>migrate_folder\<close> performs no rename when the target name exists. It
  has no such check: with the dry run off and both folders \<^verbatim>\<open>a\<close> and \<^verbatim>\<open>b\<close> on disk,
  \<open>migrate_folder\<close> from \<^verbatim>\<open>a\<close> to \<^verbatim>\<open>b\<close> moves \<^verbatim>\<open>a\<close> into \<^verbatim>\<open>b\<close>, records the migration
  and returns \<open>True\<close>.
\<close>

theorem migrate_folder_counterexample:
  "path_exists {[ustr ''a''], [ustr ''b'']} (ustr ''b'') \<and>
   migrate_folder {[ustr ''a''], [ustr ''b'']}
     \<lparr>dry_run = False, migrations_needed = [], migrations_completed = [], conflicts = []\<rparr>
     (ustr ''a'') (ustr ''b'') =
   (({[ustr ''b'', ustr ''a''], [ustr ''b'']},
     \<lparr>dry_run = False, migrations_needed = [],
      migrations_completed = [(ustr ''a'', ustr ''b'')], conflicts = []\<rparr>), True) \<and>
   \<not> path_exists (fst (fst (migrate_folder {[ustr ''a''], [ustr ''b'']}
     \<lparr>dry_run = False, migrations_needed = [], migrations_completed = [], conflicts = []\<rparr>
     (ustr ''a'') (ustr ''b'')))) (ustr ''a'')"
  by (auto simp: migrate_folder_def shutil_move_def rename_tree_def path_exists_def ustr_def)

lemma status_distinct:
  "ustr ''correct'' \<noteq> ustr ''needs_migration''"
  "ustr ''missing'' \<noteq> ustr ''needs_migration''"
  "ustr ''conflict'' \<noteq> ustr ''needs_migration''"
  "ustr ''correct'' \<noteq> ustr ''conflict''"
  "ustr ''missing'' \<noteq> ustr ''conflict''"
  by (simp_all add: ustr_def)

lemma analyze_folder_target_exists:
  "path_exists d expected_name \<Longrightarrow>
   analyze_folder d self current_name expected_name \<noteq> ustr ''needs_migration''"
  by (simp add: analyze_folder_def status_distinct)

text \<open>
  C1, amended: the guard is in \<open>analyze_folder\<close> and in the loop that calls it, not in
  \<open>migrate_folder\<close>. When the target name exists on disk, a step of the loop leaves the
  directory as it is, whatever the dry-run flag and the folder found; and
  \<open>analyze_folder\<close> reports \<^verbatim>\<open>conflict\<close> whenever the current name differs from the
  expected one and both exist, whatever the dry-run flag.
\<close>

theorem migration_conflict_safety:
  assumes "path_exists d expected_name"
  shows "fst (migrate_step d migrator mappings existing_folder expected_name) = d \<and>
         (current_name \<noteq> expected_name \<and> path_exists d current_name \<longrightarrow>
            analyze_folder d migrator current_name expected_name = ustr ''conflict'')"
proof
  show "fst (migrate_step d migrator mappings existing_folder expected_name) = d"
    using analyze_folder_target_exists [OF assms]
    by (simp add: migrate_step_def Let_def split: option.splits)
next
  show "current_name \<noteq> expected_name \<and> path_exists d current_name \<longrightarrow>
          analyze_folder d migrator current_name expected_name = ustr ''conflict''"
    using assms by (simp add: analyze_folder_def)
qed

theorem migration_conflict_safety_witness:
  "path_exists {[ustr ''a''], [ustr ''b'']} (ustr ''b'') \<and>
   fst (migrate_step {[ustr ''a''], [ustr ''b'']}
     \<lparr>dry_run = False, migrations_needed = [], migrations_completed = [], conflicts = []\<rparr>
     Map.empty (Some (ustr ''a'')) (ustr ''b'')) = {[ustr ''a''], [ustr ''b'']} \<and>
   analyze_folder {[ustr ''a''], [ustr ''b'']}
     \<lparr>dry_run = False, migrations_needed = [], migrations_completed = [], conflicts = []\<rparr>
     (ustr ''a'') (ustr ''b'') = ustr ''conflict''"
proof -
  have h: "path_exists {[ustr ''a''], [ustr ''b'']} (ustr ''b'')"
    by (simp add: path_exists_def)
  have c: "ustr ''a'' \<noteq> ustr ''b'' \<and> path_exists {[ustr ''a''], [ustr ''b'']} (ustr ''a'')"
    by (simp add: path_exists_def ustr_def)
  from migration_conflict_safety [OF h, of _ _ _ "ustr ''a''"] h c show ?thesis by blast
qed


section \<open>The checker (check\_sanitization\_changes.py)\<close>

text \<open>
  What \<open>SanitizationChecker\<close> reads of the directory \<^verbatim>\<open>base_path\<close>: whether
  \<^verbatim>\<open>(base_path / name).exists()\<close>, and the entries of \<^verbatim>\<open>base_path.iterdir()\<close>, each
  with its name and whether it is a directory, in the order of the operating system;
  \<open>iterdir\<close> raises when the directory cannot be read.
\<close>

record directory =
  dir_exists :: "ustring \<Rightarrow> bool"
  dir_iterdir :: "os_error + (ustring \<times> bool) list"

text \<open>The dictionary \<open>result\<close> of \<open>check_entity\<close>.\<close>

record check_result =
  result_name :: ustring
  result_id :: ustring
  expected_folder :: ustring
  current_folder :: ustring
  status :: ustring

record sanitization_checker =
  changes_needed :: "check_result list"
  checker_conflicts :: "check_result list"
  already_correct :: "check_result list"
  missing_folders :: "check_result list"

text \<open>Python's truth value of an optional string: \<open>None\<close> and the empty string are false.\<close>

definition truthy :: "ustring option \<Rightarrow> bool" where
  "truthy s = (case s of None \<Rightarrow> False | Some x \<Rightarrow> x \<noteq> [])"

definition expected_name_of :: "unicode_db \<Rightarrow> ustring \<Rightarrow> ustring option \<Rightarrow> ustring" where
  "expected_name_of U name entity_id =
     (if truthy entity_id then sanitize_folder_name U name @ [45] @ the entity_id
      else sanitize_folder_name U name)"

definition find_existing_folder ::
  "unicode_db \<Rightarrow> directory \<Rightarrow> ustring \<Rightarrow> ustring option \<Rightarrow> os_error + ustring option" where
  "find_existing_folder U dir name entity_id =
     (let test_name = expected_name_of U name entity_id in
      if dir_exists dir test_name then Inr (Some test_name)
      else
        let variations =
              [replace [32] [45] (lower U name),
               replace [32] [95] (lower U name),
               filter (\<lambda>c. c < 128) (replace [32] [45] (lower U name))];
            tests = (if truthy entity_id then map (\<lambda>var. var @ [45] @ the entity_id) variations
                     else variations)
        in
        (case find (dir_exists dir) tests of
           Some found \<Rightarrow> Inr (Some found)
         | None \<Rightarrow>
             (case dir_iterdir dir of
                Inl e \<Rightarrow> Inl e
              | Inr entries \<Rightarrow>
                  if truthy entity_id then
                    Inr (map_option fst
                      (find (\<lambda>(folder_name, is_dir). is_dir \<and> contains (the entity_id) folder_name)
                         entries))
                  else
                    let name_start = (if 5 < length name then lower U (take 5 name)
                                      else lower U name) in
                    Inr (map_option fst
                      (find (\<lambda>(folder_name, is_dir).
                               is_dir \<and> prefix name_start (lower U folder_name))
                         entries)))))"

definition check_entity ::
  "unicode_db \<Rightarrow> directory \<Rightarrow> sanitization_checker \<Rightarrow> ustring \<Rightarrow> ustring option \<Rightarrow>
   os_error + (check_result \<times> sanitization_checker)" where
  "check_entity U dir self name entity_id =
     (let expected_name = expected_name_of U name entity_id in
      case find_existing_folder U dir name entity_id of
        Inl e \<Rightarrow> Inl e
      | Inr existing_folder \<Rightarrow>
          let result =
                \<lparr>result_name = name,
                 result_id = (if truthy entity_id then the entity_id else []),
                 expected_folder = expected_name,
                 current_folder =
                   (if truthy existing_folder then the existing_folder else ustr ''NOT FOUND''),
                 status = ustr ''unknown''\<rparr>
          in
          if \<not> truthy existing_folder then
            (let result = result\<lparr>status := ustr ''missing''\<rparr> in
             Inr (result, self\<lparr>missing_folders := missing_folders self @ [result]\<rparr>))
          else if the existing_folder = expected_name then
            (let result = result\<lparr>status := ustr ''correct''\<rparr> in
             Inr (result, self\<lparr>already_correct := already_correct self @ [result]\<rparr>))
          else if dir_exists dir expected_name then
            (let result = result\<lparr>status := ustr ''conflict''\<rparr> in
             Inr (result, self\<lparr>checker_conflicts := checker_conflicts self @ [result]\<rparr>))
          else
            (let result = result\<lparr>status := ustr ''needs_change''\<rparr> in
             Inr (result, self\<lparr>changes_needed := changes_needed self @ [result]\<rparr>)))"

text \<open>
  A sequence of calls, as the loops of \<open>main\<close> make them on one checker; an exception
  ends the run.
\<close>

fun check_all ::
  "unicode_db \<Rightarrow> directory \<Rightarrow> sanitization_checker \<Rightarrow> (ustring \<times> ustring option) list \<Rightarrow>
   os_error + (check_result list \<times> sanitization_checker)" where
  "check_all U dir self [] = Inr ([], self)"
| "check_all U dir self ((name, entity_id) # rest) =
     (case check_entity U dir self name entity_id of
        Inl e \<Rightarrow> Inl e
      | Inr (result, self') \<Rightarrow>
          (case check_all U dir self' rest of
             Inl e \<Rightarrow> Inl e
           | Inr (results, self'') \<Rightarrow> Inr (result # results, self'')))"

text \<open>The checker of \<^verbatim>\<open>__init__\<close>, and the invariant of the four lists.\<close>

definition new_checker :: sanitization_checker where
  "new_checker =
     \<lparr>changes_needed = [], checker_conflicts = [], already_correct = [], missing_folders = []\<rparr>"

definition lists_by_status :: "sanitization_checker \<Rightarrow> bool" where
  "lists_by_status c =
     (list_all (\<lambda>r. status r = ustr ''missing'') (missing_folders c) \<and>
      list_all (\<lambda>r. status r = ustr ''correct'') (already_correct c) \<and>
      list_all (\<lambda>r. status r = ustr ''conflict'') (checker_conflicts c) \<and>
      list_all (\<lambda>r. status r = ustr ''needs_change'') (changes_needed c))"

definition all_results :: "sanitization_checker \<Rightarrow> check_result multiset" where
  "all_results c =
     mset (missing_folders c) + mset (already_correct c) + mset (checker_conflicts c) +
     mset (changes_needed c)"

lemma find_existing_folder_returns:
  "dir_iterdir dir = Inr entries \<Longrightarrow> \<exists>f. find_existing_folder U dir name entity_id = Inr f"
  by (simp add: find_existing_folder_def Let_def split: option.splits)

lemma check_entity_returns:
  assumes "dir_iterdir dir = Inr entries"
  shows "\<exists>r c'. check_entity U dir c name entity_id = Inr (r, c')"
proof -
  from find_existing_folder_returns [OF assms]
  obtain f where "find_existing_folder U dir name entity_id = Inr f" by blast
  then show ?thesis by (simp add: check_entity_def Let_def)
qed

text \<open>What one call that returns does to the checker: one of four things.\<close>

definition appended_to ::
  "sanitization_checker \<Rightarrow> sanitization_checker \<Rightarrow> check_result \<Rightarrow> bool" where
  "appended_to c c' r =
     ((status r = ustr ''missing'' \<and> c' = c\<lparr>missing_folders := missing_folders c @ [r]\<rparr>) \<or>
      (status r = ustr ''correct'' \<and> c' = c\<lparr>already_correct := already_correct c @ [r]\<rparr>) \<or>
      (status r = ustr ''conflict'' \<and> c' = c\<lparr>checker_conflicts := checker_conflicts c @ [r]\<rparr>) \<or>
      (status r = ustr ''needs_change'' \<and> c' = c\<lparr>changes_needed := changes_needed c @ [r]\<rparr>))"

lemma check_entity_step:
  assumes "check_entity U dir c name entity_id = Inr (r, c')"
  shows "appended_to c c' r"
proof -
  from assms obtain f where f: "find_existing_folder U dir name entity_id = Inr f"
    by (cases "find_existing_folder U dir name entity_id") (simp_all add: check_entity_def Let_def)
  define base where "base =
     \<lparr>result_name = name,
      result_id = (if truthy entity_id then the entity_id else []),
      expected_folder = expected_name_of U name entity_id,
      current_folder = (if truthy f then the f else ustr ''NOT FOUND''),
      status = ustr ''unknown''\<rparr>"
  consider (missing) "\<not> truthy f"
    | (correct) "truthy f" "the f = expected_name_of U name entity_id"
    | (conflict) "truthy f" "the f \<noteq> expected_name_of U name entity_id"
        "dir_exists dir (expected_name_of U name entity_id)"
    | (change) "truthy f" "the f \<noteq> expected_name_of U name entity_id"
        "\<not> dir_exists dir (expected_name_of U name entity_id)"
    by blast
  then show ?thesis
  proof cases
    case missing
    then have ce: "check_entity U dir c name entity_id =
        Inr (base\<lparr>status := ustr ''missing''\<rparr>,
             c\<lparr>missing_folders := missing_folders c @ [base\<lparr>status := ustr ''missing''\<rparr>]\<rparr>)"
      using f by (simp add: check_entity_def Let_def base_def)
    from assms [unfolded ce] have "r = base\<lparr>status := ustr ''missing''\<rparr>"
      and "c' = c\<lparr>missing_folders := missing_folders c @ [base\<lparr>status := ustr ''missing''\<rparr>]\<rparr>"
      by auto
    then show ?thesis by (simp add: appended_to_def)
  next
    case correct
    then have ce: "check_entity U dir c name entity_id =
        Inr (base\<lparr>status := ustr ''correct''\<rparr>,
             c\<lparr>already_correct := already_correct c @ [base\<lparr>status := ustr ''correct''\<rparr>]\<rparr>)"
      using f by (simp add: check_entity_def Let_def base_def)
    from assms [unfolded ce] have "r = base\<lparr>status := ustr ''correct''\<rparr>"
      and "c' = c\<lparr>already_correct := already_correct c @ [base\<lparr>status := ustr ''correct''\<rparr>]\<rparr>"
      by auto
    then show ?thesis by (simp add: appended_to_def)
  next
    case conflict
    then have ce: "check_entity U dir c name entity_id =
        Inr (base\<lparr>status := ustr ''conflict''\<rparr>,
             c\<lparr>checker_conflicts := checker_conflicts c @ [base\<lparr>status := ustr ''conflict''\<rparr>]\<rparr>)"
      using f by (simp add: check_entity_def Let_def base_def)
    from assms [unfolded ce] have "r = base\<lparr>status := ustr ''conflict''\<rparr>"
      and "c' = c\<lparr>checker_conflicts := checker_conflicts c @ [base\<lparr>status := ustr ''conflict''\<rparr>]\<rparr>"
      by auto
    then show ?thesis by (simp add: appended_to_def)
  next
    case change
    then have ce: "check_entity U dir c name entity_id =
        Inr (base\<lparr>status := ustr ''needs_change''\<rparr>,
             c\<lparr>changes_needed := changes_needed c @ [base\<lparr>status := ustr ''needs_change''\<rparr>]\<rparr>)"
      using f by (simp add: check_entity_def Let_def base_def)
    from assms [unfolded ce] have "r = base\<lparr>status := ustr ''needs_change''\<rparr>"
      and "c' = c\<lparr>changes_needed := changes_needed c @ [base\<lparr>status := ustr ''needs_change''\<rparr>]\<rparr>"
      by auto
    then show ?thesis by (simp add: appended_to_def)
  qed
qed

lemma appended_to_results:
  "appended_to c c' r \<Longrightarrow> all_results c' = all_results c + {#r#}"
  unfolding appended_to_def all_results_def by (elim disjE conjE) simp_all

lemma appended_to_invariant:
  "appended_to c c' r \<Longrightarrow> lists_by_status c \<Longrightarrow> lists_by_status c'"
  unfolding appended_to_def lists_by_status_def by (elim disjE conjE) simp_all

lemma appended_to_status:
  "appended_to c c' r \<Longrightarrow>
   status r = ustr ''missing'' \<or> status r = ustr ''correct'' \<or> status r = ustr ''conflict'' \<or>
   status r = ustr ''needs_change''"
  unfolding appended_to_def by blast

lemma unknown_is_no_status:
  "ustr ''unknown'' \<noteq> ustr ''missing''" "ustr ''unknown'' \<noteq> ustr ''correct''"
  "ustr ''unknown'' \<noteq> ustr ''conflict''" "ustr ''unknown'' \<noteq> ustr ''needs_change''"
  by (simp_all add: ustr_def)

lemma check_all_returns:
  assumes "dir_iterdir dir = Inr entries"
  shows "\<exists>rs c'. check_all U dir c entities = Inr (rs, c')"
proof (induction entities arbitrary: c)
  case Nil
  then show ?case by simp
next
  case (Cons e entities)
  obtain name entity_id where e: "e = (name, entity_id)" by (cases e)
  from check_entity_returns [OF assms]
  obtain r c1 where r: "check_entity U dir c name entity_id = Inr (r, c1)" by blast
  from Cons.IH obtain rs c2 where "check_all U dir c1 entities = Inr (rs, c2)" by blast
  with r e show ?case by simp
qed

lemma check_all_invariant:
  assumes "check_all U dir c entities = Inr (rs, c')"
  shows "length rs = length entities \<and> all_results c' = all_results c + mset rs \<and>
         (lists_by_status c \<longrightarrow> lists_by_status c') \<and>
         list_all (\<lambda>r. status r \<noteq> ustr ''unknown'') rs"
  using assms
proof (induction entities arbitrary: c rs)
  case Nil
  then show ?case by simp
next
  case (Cons e entities)
  obtain name entity_id where e: "e = (name, entity_id)" by (cases e)
  from Cons.prems e obtain r c1 where r: "check_entity U dir c name entity_id = Inr (r, c1)"
    by (cases "check_entity U dir c name entity_id") auto
  from Cons.prems e r obtain rs' where rs': "check_all U dir c1 entities = Inr (rs', c')"
    and rs: "rs = r # rs'"
    by (cases "check_all U dir c1 entities") auto
  note step = check_entity_step [OF r]
  have u: "status r \<noteq> ustr ''unknown''"
    using appended_to_status [OF step] unknown_is_no_status by metis
  from Cons.IH [OF rs'] appended_to_results [OF step] appended_to_invariant [OF step] u rs
  show ?case by simp
qed

text \<open>
  C10: a call of \<open>check_entity\<close> that returns gives its result one of the four statuses
  \<^verbatim>\<open>missing\<close>, \<^verbatim>\<open>correct\<close>, \<^verbatim>\<open>conflict\<close>, \<^verbatim>\<open>needs_change\<close>, never the placeholder
  \<^verbatim>\<open>unknown\<close>, and appends it to exactly the list of that status, leaving the other
  three as they were (\<open>appended_to\<close>). So after a run of calls on a new checker the four
  lists together hold exactly the results of the run, one per entity, each in the list
  of its status. The only exception a call can raise is that of \<^verbatim>\<open>iterdir\<close>: when the
  directory can be listed, every call returns.
\<close>

theorem checker_lists_partition:
  "(dir_iterdir dir = Inr entries \<longrightarrow>
      (\<exists>rs c'. check_all U dir new_checker entities = Inr (rs, c'))) \<and>
   (check_all U dir new_checker entities = Inr (rs, c') \<longrightarrow>
      length rs = length entities \<and> all_results c' = mset rs \<and> lists_by_status c' \<and>
      list_all (\<lambda>r. status r \<noteq> ustr ''unknown'') rs) \<and>
   (check_entity U dir c name entity_id = Inr (r, c1) \<longrightarrow> appended_to c c1 r)"
proof (intro conjI impI)
  assume "dir_iterdir dir = Inr entries"
  then show "\<exists>rs c'. check_all U dir new_checker entities = Inr (rs, c')"
    by (rule check_all_returns)
next
  assume a: "check_all U dir new_checker entities = Inr (rs, c')"
  have n: "all_results new_checker = {#}" "lists_by_status new_checker"
    by (simp_all add: all_results_def lists_by_status_def new_checker_def)
  from check_all_invariant [OF a] n
  show "length rs = length entities" "all_results c' = mset rs" "lists_by_status c'"
    "list_all (\<lambda>r. status r \<noteq> ustr ''unknown'') rs"
    by simp_all
next
  assume "check_entity U dir c name entity_id = Inr (r, c1)"
  then show "appended_to c c1 r" by (rule check_entity_step)
qed

theorem checker_lists_partition_witness:
  "dir_iterdir \<lparr>dir_exists = (\<lambda>n. False), dir_iterdir = Inr []\<rparr> = Inr [] \<and>
   (\<exists>rs c'. check_all py_unicode \<lparr>dir_exists = (\<lambda>n. False), dir_iterdir = Inr []\<rparr> new_checker
                [(ustr ''a'', None), (ustr ''b'', Some (ustr ''7''))] = Inr (rs, c') \<and>
             length rs = 2 \<and> all_results c' = mset rs \<and> lists_by_status c')"
proof -
  let ?D = "\<lparr>dir_exists = (\<lambda>n. False), dir_iterdir = Inr []\<rparr>"
  let ?es = "[(ustr ''a'', None), (ustr ''b'', Some (ustr ''7''))]"
  have h: "dir_iterdir ?D = Inr []" by simp
  from checker_lists_partition [of ?D "[]" py_unicode ?es] h
  obtain rs c' where r: "check_all py_unicode ?D new_checker ?es = Inr (rs, c')" by blast
  from checker_lists_partition [of ?D "[]" py_unicode ?es rs c'] r
  have "length rs = length ?es \<and> all_results c' = mset rs \<and> lists_by_status c'" by blast
  with h r show ?thesis by auto
qed

section \<open>Idempotence of the sanitizer\<close>

subsection \<open>When a step leaves a string as it is\<close>

lemma replace_absent: "old \<noteq> [] \<Longrightarrow> hd old \<notin> set s \<Longrightarrow> replace old new s = s"
proof (induction s)
  case Nil
  then show ?case by (cases old) simp_all
next
  case (Cons c cs)
  then obtain k ks where old: "old = k # ks" by (cases old) auto
  with Cons show ?case by auto
qed

lemma sub_whitespace_absent: "\<forall>c \<in> set s. \<not> isspace U c \<Longrightarrow> sub_whitespace U s = s"
  by (induction s) simp_all

lemma sub_underscore_absent: "95 \<notin> set s \<Longrightarrow> sub_underscore s = s"
  by (induction s rule: sub_underscore.induct) auto

lemma dropWhile_hd: "s \<noteq> [] \<Longrightarrow> \<not> P (hd s) \<Longrightarrow> dropWhile P s = s"
  by (cases s) simp_all

lemma strip_chars_id: "s \<noteq> [] \<Longrightarrow> hd s \<notin> set cs \<Longrightarrow> last s \<notin> set cs \<Longrightarrow> strip_chars cs s = s"
  by (simp add: strip_chars_def dropWhile_hd hd_rev)

lemma strip_id: "s \<noteq> [] \<Longrightarrow> \<not> isspace U (hd s) \<Longrightarrow> \<not> isspace U (last s) \<Longrightarrow> strip U s = s"
  by (simp add: strip_def dropWhile_hd hd_rev)

text \<open>A list of replacements applied in order, the common shape of the four loops.\<close>

definition apply_subst :: "(ustring \<times> ustring) list \<Rightarrow> ustring \<Rightarrow> ustring" where
  "apply_subst m s = foldl (\<lambda>acc (k, v). replace k v acc) s m"

lemma apply_subst_Nil: "apply_subst [] s = s"
  by (simp add: apply_subst_def)

lemma apply_subst_Cons: "apply_subst ((k, v) # m) s = apply_subst m (replace k v s)"
  by (simp add: apply_subst_def)

lemma apply_map_subst: "apply_map m s = apply_subst m s"
  by (simp add: apply_map_def apply_subst_def)

lemma apply_symbols_subst:
  "apply_symbols s = apply_subst (map (\<lambda>(k, v). (k, symbol_replacement v)) symbol_map) s"
  by (simp add: apply_symbols_def apply_subst_def foldl_map split_def)

lemma apply_remove_subst: "apply_remove rs s = apply_subst (map (\<lambda>k. (k, [])) rs) s"
  by (simp add: apply_remove_def apply_subst_def foldl_map)

lemma apply_subst_absent:
  "\<forall>(k, v) \<in> set m. k \<noteq> [] \<and> hd k \<notin> set s \<Longrightarrow> apply_subst m s = s"
proof (induction m)
  case Nil
  then show ?case by (simp add: apply_subst_Nil)
next
  case (Cons kv m)
  obtain k v where kv: "kv = (k, v)" by (cases kv)
  with Cons.prems have "replace k v s = s" by (auto intro: replace_absent)
  with Cons kv show ?case by (simp add: apply_subst_Cons)
qed

lemma set_apply_subst:
  "set (apply_subst m s) \<subseteq> set s \<union> (\<Union>(k, v) \<in> set m. set v)"
proof (induction m arbitrary: s)
  case Nil
  then show ?case by (simp add: apply_subst_Nil)
next
  case (Cons kv m)
  obtain k v where kv: "kv = (k, v)" by (cases kv)
  have "set (apply_subst m (replace k v s)) \<subseteq> set (replace k v s) \<union> (\<Union>(k, v) \<in> set m. set v)"
    by (rule Cons.IH)
  moreover have "set (replace k v s) \<subseteq> set s \<union> set v" by (rule set_replace_subset)
  ultimately show ?case unfolding kv apply_subst_Cons by auto
qed

lemma replace_single_removes: "k \<notin> set new \<Longrightarrow> k \<notin> set (replace [k] new s)"
  by (induction s) auto

text \<open>
  When no replacement text has a character \<open>c\<close>, and \<open>[c]\<close> is a key, \<open>c\<close> is gone after
  the loop.
\<close>

lemma apply_subst_removes:
  assumes "\<forall>(k, v) \<in> set m. c \<notin> set v" and "[c] \<in> fst ` set m"
  shows "c \<notin> set (apply_subst m s)"
  using assms
proof (induction m arbitrary: s)
  case Nil
  then show ?case by simp
next
  case (Cons kv m)
  obtain k v where kv: "kv = (k, v)" by (cases kv)
  have vs: "\<forall>(k, v) \<in> set m. c \<notin> set v" and cv: "c \<notin> set v"
    using Cons.prems(1) kv by auto
  show ?case
  proof (cases "[c] \<in> fst ` set m")
    case True
    then show ?thesis unfolding kv apply_subst_Cons by (rule Cons.IH [OF vs])
  next
    case False
    with Cons.prems(2) kv have k: "k = [c]" by auto
    have "c \<notin> set (replace [c] v s)" using cv by (rule replace_single_removes)
    moreover have "set (apply_subst m (replace [c] v s)) \<subseteq>
        set (replace [c] v s) \<union> (\<Union>(k, v) \<in> set m. set v)"
      by (rule set_apply_subst)
    ultimately show ?thesis unfolding kv k apply_subst_Cons using vs by auto
  qed
qed


lemma apply_subst_append: "apply_subst (m1 @ m2) s = apply_subst m2 (apply_subst m1 s)"
  by (simp add: apply_subst_def)

lemma set_collapse_dashes: "set (collapse_dashes s) \<subseteq> set s \<union> {45}"
proof -
  have "list_all (\<lambda>c. c \<in> set s \<union> {45}) (collapse_dashes s)"
    by (rule list_all_collapse_dashes) (simp_all add: list_all_iff)
  then show ?thesis by (auto simp: list_all_iff)
qed

lemma set_sub_underscore: "set (sub_underscore s) \<subseteq> set s"
  by (induction s rule: sub_underscore.induct) auto

lemma sub_whitespace_chars:
  "c \<in> set (sub_whitespace U s) \<Longrightarrow> c = 45 \<or> (c \<in> set s \<and> \<not> isspace U c)"
proof (induction U s rule: sub_whitespace.induct)
  case (1 U)
  then show ?case by simp
next
  case (2 U x xs)
  show ?case
  proof (cases "isspace U x")
    case True
    with 2 have "c = 45 \<or> (c \<in> set (dropWhile (isspace U) xs) \<and> \<not> isspace U c)" by auto
    then show ?thesis using set_dropWhileD [of c "isspace U" xs] by auto
  next
    case False
    with 2 show ?thesis by auto
  qed
qed

subsection \<open>The replacements of the sanitizer as one table\<close>

definition direct_subst :: "(ustring \<times> ustring) list" where
  "direct_subst =
     [([95], [45]), ([91], []), ([93], []), ([123], []), ([125], []),
      ([38], []), ([39], []), ([34], []), ([46], []), ([33], []),
      ([63], []), ([59], []), ([58], [])]"

definition all_subst :: "(ustring \<times> ustring) list" where
  "all_subst =
     direct_subst @ accent_map @ map (\<lambda>(k, v). (k, symbol_replacement v)) symbol_map @
     map (\<lambda>k. (k, [])) remove_chars @ greek_map"

lemma sanitize_filtered_subst:
  "sanitize_filtered U s =
     filter (\<lambda>c. isalnum U c \<or> c = 45)
       (apply_subst all_subst (sub_underscore (sub_whitespace U (lower U s))))"
  by (simp add: sanitize_filtered_def all_subst_def apply_subst_append apply_map_subst
      apply_symbols_subst apply_remove_subst direct_subst_def apply_subst_Cons apply_subst_Nil)

text \<open>
  Every key of the table is one character that is not in \<^verbatim>\<open>[a-z0-9-]\<close>, but for the
  two-character key of \<open>remove_chars\<close>; every replacement text is in \<^verbatim>\<open>[a-z0-9-]\<close>.
\<close>

lemma all_subst_table:
  "list_all (\<lambda>(k, v). (k = [hd k] \<or> k = [44, 32]) \<and> \<not> slug_char (hd k) \<and> list_all slug_char v)
     all_subst"
  by (simp add: all_subst_def direct_subst_def accent_map_def symbol_map_def remove_chars_def
      greek_map_def symbol_replacement_def fraction_words_def ustr_def slug_char_def is_az_def)


lemma all_subst_entry:
  assumes "(k, v) \<in> set all_subst"
  shows "k \<noteq> []" "k = [hd k] \<or> k = [44, 32]" "\<not> slug_char (hd k)" "\<forall>c \<in> set v. slug_char c"
proof -
  from all_subst_table assms
  have *: "(k = [hd k] \<or> k = [44, 32]) \<and> \<not> slug_char (hd k) \<and> list_all slug_char v"
    by (auto simp: list_all_iff)
  then show "k = [hd k] \<or> k = [44, 32]" "\<not> slug_char (hd k)" "\<forall>c \<in> set v. slug_char c"
    by (auto simp: list_all_iff)
  from * show "k \<noteq> []" by auto
qed

lemma sanitize_folder_name_eq:
  "sanitize_folder_name U name =
     (if name = [] \<or> strip U name = [] then unknown
      else if strip U name \<in> set empty_brackets then unknown
      else if strip_chars [45] (collapse_dashes (sanitize_filtered U name)) = [] then unknown
      else strip_chars [45] (collapse_dashes (sanitize_filtered U name)))"
  by (simp add: sanitize_folder_name_def sanitize_filtered_def Let_def)

subsection \<open>Strings that the sanitizer leaves as they are\<close>

definition stable :: "unicode_db \<Rightarrow> ustring \<Rightarrow> bool" where
  "stable U y =
     (y \<noteq> [] \<and>
      list_all (\<lambda>c. (isalnum U c \<or> c = 45) \<and> \<not> isspace U c \<and> c \<notin> set (map (hd \<circ> fst) all_subst)) y \<and>
      \<not> contains [45, 45] y \<and> hd y \<noteq> 45 \<and> last y \<noteq> 45 \<and> lower U y = y)"

lemma bracket_heads:
  "40 \<in> set (map (hd \<circ> fst) all_subst)" "91 \<in> set (map (hd \<circ> fst) all_subst)"
  "123 \<in> set (map (hd \<circ> fst) all_subst)" "95 \<in> set (map (hd \<circ> fst) all_subst)"
  by (simp_all add: all_subst_def direct_subst_def remove_chars_def)

lemma empty_brackets_hd: "y \<in> set empty_brackets \<Longrightarrow> hd y = 40 \<or> hd y = 91 \<or> hd y = 123"
  by (auto simp: empty_brackets_def ustr_def)

lemma stable_fixed:
  assumes "stable U y"
  shows "sanitize_folder_name U y = y"
proof -
  from assms have ne: "y \<noteq> []"
    and ch: "\<forall>c \<in> set y. (isalnum U c \<or> c = 45) \<and> \<not> isspace U c \<and> c \<notin> set (map (hd \<circ> fst) all_subst)"
    and dd: "\<not> contains [45, 45] y" and h: "hd y \<noteq> 45" and l: "last y \<noteq> 45"
    and lo: "lower U y = y"
    by (simp_all add: stable_def list_all_iff)
  from ne have hy: "hd y \<in> set y" and ly: "last y \<in> set y" by simp_all
  have st: "strip U y = y"
    using ne hy ly ch by (intro strip_id) auto
  have nb: "y \<notin> set empty_brackets"
    using empty_brackets_hd [of y] hy ch bracket_heads by metis
  have ws: "sub_whitespace U y = y"
    using ch by (intro sub_whitespace_absent) auto
  have us: "sub_underscore y = y"
    using ch bracket_heads(4) by (intro sub_underscore_absent) auto
  have "\<forall>(k, v) \<in> set all_subst. k \<noteq> [] \<and> hd k \<notin> set y"
  proof (intro ballI, clarify)
    fix k v
    assume kv: "(k, v) \<in> set all_subst"
    then have "hd k \<in> set (map (hd \<circ> fst) all_subst)" by force
    with ch all_subst_entry(1) [OF kv] show "k \<noteq> [] \<and> hd k \<notin> set y" by auto
  qed
  then have su: "apply_subst all_subst y = y" by (rule apply_subst_absent)
  have fi: "filter (\<lambda>c. isalnum U c \<or> c = 45) y = y"
    using ch by (simp add: filter_id_conv)
  have f: "sanitize_filtered U y = y"
    by (simp add: sanitize_filtered_subst lo ws us su fi)
  have cd: "collapse_dashes y = y" using dd by (rule collapse_dashes_id)
  have sc: "strip_chars [45] y = y" using ne h l by (intro strip_chars_id) simp_all
  show ?thesis
    unfolding sanitize_folder_name_eq st f cd sc using ne nb by simp
qed

lemma sanitize_result_chars:
  assumes "c \<in> set (strip_chars [45] (collapse_dashes (sanitize_filtered U s)))"
  shows "(isalnum U c \<or> c = 45) \<and>
         (slug_char c \<or> (c \<in> set (lower U s) \<and> \<not> isspace U c)) \<and>
         (c \<in> set (map (hd \<circ> fst) all_subst) \<longrightarrow> c = 44)"
proof -
  let ?pre = "sub_underscore (sub_whitespace U (lower U s))"
  let ?x = "apply_subst all_subst ?pre"
  let ?f = "filter (\<lambda>c. isalnum U c \<or> c = 45) ?x"
  have f: "sanitize_filtered U s = ?f" by (rule sanitize_filtered_subst)
  from assms have "c \<in> set (collapse_dashes ?f)"
    using set_strip_chars [of "[45]" "collapse_dashes ?f"] unfolding f by auto
  then have c: "c = 45 \<or> c \<in> set ?f"
    using set_collapse_dashes [of ?f] by auto
  then have a: "isalnum U c \<or> c = 45" by auto
  have vals: "(\<Union>(k, v) \<in> set all_subst. set v) \<subseteq> {c. slug_char c}"
    using all_subst_entry(4) by auto
  have s45: "slug_char 45" by (simp add: slug_char_def)
  have b: "slug_char c \<or> (c \<in> set (lower U s) \<and> \<not> isspace U c)"
  proof (cases "slug_char c")
    case True
    then show ?thesis by simp
  next
    case False
    with c s45 have "c \<in> set ?x" by auto
    with set_apply_subst [of all_subst ?pre] vals False have "c \<in> set ?pre" by auto
    with set_sub_underscore have "c \<in> set (sub_whitespace U (lower U s))" by auto
    from sub_whitespace_chars [OF this] False s45 show ?thesis by auto
  qed
  have k: "c \<in> set (map (hd \<circ> fst) all_subst) \<longrightarrow> c = 44"
  proof (intro impI)
    assume "c \<in> set (map (hd \<circ> fst) all_subst)"
    then obtain k v where kv: "(k, v) \<in> set all_subst" and ck: "c = hd k" by auto
    note e = all_subst_entry [OF kv]
    show "c = 44"
    proof (rule ccontr)
      assume n: "c \<noteq> 44"
      with e(2) ck have "k = [c]" by auto
      with kv have key: "[c] \<in> fst ` set all_subst" by force
      have nv: "\<forall>(k, v) \<in> set all_subst. c \<notin> set v"
        using vals e(3) ck by auto
      have "c \<notin> set ?x" using nv key by (rule apply_subst_removes)
      moreover from e(3) ck s45 have "c \<noteq> 45" by auto
      ultimately show False using c by auto
    qed
  qed
  from a b k show ?thesis by blast
qed

lemma sanitize_result_stable:
  assumes ne: "strip_chars [45] (collapse_dashes (sanitize_filtered U s)) \<noteq> []"
    and space: "\<forall>c. slug_char c \<longrightarrow> \<not> isspace U c"
    and comma: "\<not> isalnum U 44"
    and low: "\<forall>x y. set y \<subseteq> set (lower U x) \<union> {c. slug_char c} \<longrightarrow> lower U y = y"
  shows "stable U (strip_chars [45] (collapse_dashes (sanitize_filtered U s)))"
proof -
  let ?r = "strip_chars [45] (collapse_dashes (sanitize_filtered U s))"
  note ch = sanitize_result_chars [of _ U s]
  have 1: "list_all (\<lambda>c. (isalnum U c \<or> c = 45) \<and> \<not> isspace U c \<and>
              c \<notin> set (map (hd \<circ> fst) all_subst)) ?r"
    unfolding list_all_iff
  proof (intro ballI conjI)
    fix c assume c: "c \<in> set ?r"
    from ch [OF c] show "isalnum U c \<or> c = 45" by blast
    from ch [OF c] space show "\<not> isspace U c" by blast
    from ch [OF c] comma show "c \<notin> set (map (hd \<circ> fst) all_subst)" by auto
  qed
  have "\<not> sublist [45, 45] ?r"
  proof
    assume "sublist [45, 45] ?r"
    then have "sublist [45, 45] (collapse_dashes (sanitize_filtered U s))"
      using sublist_strip_chars by (rule sublist_order.order.trans)
    then show False
      using collapse_dashes_no_double [of "sanitize_filtered U s"] by (simp add: contains_iff_sublist)
  qed
  then have 2: "\<not> contains [45, 45] ?r" by (simp add: contains_iff_sublist)
  have 3: "hd ?r \<noteq> 45" using hd_strip_chars [OF ne] by simp
  have 4: "last ?r \<noteq> 45" using last_strip_chars [OF ne] by simp
  have "set ?r \<subseteq> set (lower U s) \<union> {c. slug_char c}" using ch by blast
  with low have 5: "lower U ?r = ?r" by blast
  show ?thesis unfolding stable_def using ne 1 2 3 4 5 by blast
qed

lemma unknown_keys: "list_all (\<lambda>c. is_az c \<and> c \<notin> set (map (hd \<circ> fst) all_subst)) unknown"
proof -
  have "list_all is_az unknown" by (simp add: unknown_def ustr_def is_az_def)
  moreover have "c \<notin> set (map (hd \<circ> fst) all_subst)" if "is_az c" for c
  proof
    assume "c \<in> set (map (hd \<circ> fst) all_subst)"
    then obtain k v where kv: "(k, v) \<in> set all_subst" and ck: "c = hd k" by auto
    from all_subst_entry(3) [OF kv] ck that show False by (simp add: slug_char_def)
  qed
  ultimately show ?thesis by (auto simp: list_all_iff)
qed

lemma unknown_stable:
  assumes space: "\<forall>c. slug_char c \<longrightarrow> \<not> isspace U c"
    and letters: "\<forall>c. is_az c \<longrightarrow> isalnum U c"
    and low: "\<forall>x y. set y \<subseteq> set (lower U x) \<union> {c. slug_char c} \<longrightarrow> lower U y = y"
  shows "stable U unknown"
proof -
  have az: "\<forall>c \<in> set unknown. is_az c \<and> c \<notin> set (map (hd \<circ> fst) all_subst)"
    using unknown_keys by (simp add: list_all_iff)
  then have sl: "\<forall>c \<in> set unknown. slug_char c" by (simp add: slug_char_def)
  have 1: "list_all (\<lambda>c. (isalnum U c \<or> c = 45) \<and> \<not> isspace U c \<and>
              c \<notin> set (map (hd \<circ> fst) all_subst)) unknown"
    unfolding list_all_iff using az sl space letters by blast
  have "set unknown \<subseteq> set (lower U []) \<union> {c. slug_char c}" using sl by auto
  with low have 5: "lower U unknown = unknown" by blast
  have 2: "unknown \<noteq> [] \<and> \<not> contains [45, 45] unknown \<and> hd unknown \<noteq> 45 \<and> last unknown \<noteq> 45"
    by (simp add: unknown_def ustr_def)
  show ?thesis unfolding stable_def using 1 2 5 by blast
qed

subsection \<open>The concrete database has the four properties\<close>

lemma py_lower_char_not_upper:
  assumes "\<not> ((65 \<le> d \<and> d \<le> 90) \<or> (192 \<le> d \<and> d \<le> 222 \<and> d \<noteq> 215))" "d \<noteq> 304" "d \<noteq> 376"
    "\<not> (even d \<and> ((256 \<le> d \<and> d \<le> 311) \<or> (330 \<le> d \<and> d \<le> 375)))"
    "\<not> (odd d \<and> ((313 \<le> d \<and> d \<le> 328) \<or> (377 \<le> d \<and> d \<le> 382)))"
  shows "py_lower_char d = [d]"
  unfolding py_lower_char_def using assms by (simp only: if_False)

lemma py_lower_char_fixed:
  assumes "d \<in> set (py_lower_char c)"
  shows "py_lower_char d = [d]"
proof -
  consider (a) "(65 \<le> c \<and> c \<le> 90) \<or> (192 \<le> c \<and> c \<le> 222 \<and> c \<noteq> 215)"
    | (b) "\<not> ((65 \<le> c \<and> c \<le> 90) \<or> (192 \<le> c \<and> c \<le> 222 \<and> c \<noteq> 215))" "c = 304"
    | (c) "\<not> ((65 \<le> c \<and> c \<le> 90) \<or> (192 \<le> c \<and> c \<le> 222 \<and> c \<noteq> 215))" "c \<noteq> 304" "c = 376"
    | (d) "\<not> ((65 \<le> c \<and> c \<le> 90) \<or> (192 \<le> c \<and> c \<le> 222 \<and> c \<noteq> 215))" "c \<noteq> 304" "c \<noteq> 376"
          "even c \<and> ((256 \<le> c \<and> c \<le> 311) \<or> (330 \<le> c \<and> c \<le> 375))"
    | (e) "\<not> ((65 \<le> c \<and> c \<le> 90) \<or> (192 \<le> c \<and> c \<le> 222 \<and> c \<noteq> 215))" "c \<noteq> 304" "c \<noteq> 376"
          "\<not> (even c \<and> ((256 \<le> c \<and> c \<le> 311) \<or> (330 \<le> c \<and> c \<le> 375)))"
          "odd c \<and> ((313 \<le> c \<and> c \<le> 328) \<or> (377 \<le> c \<and> c \<le> 382))"
    | (f) "\<not> ((65 \<le> c \<and> c \<le> 90) \<or> (192 \<le> c \<and> c \<le> 222 \<and> c \<noteq> 215))" "c \<noteq> 304" "c \<noteq> 376"
          "\<not> (even c \<and> ((256 \<le> c \<and> c \<le> 311) \<or> (330 \<le> c \<and> c \<le> 375)))"
          "\<not> (odd c \<and> ((313 \<le> c \<and> c \<le> 328) \<or> (377 \<le> c \<and> c \<le> 382)))"
    by blast
  then show ?thesis
  proof cases
    case a
    then have "py_lower_char c = [c + 32]" unfolding py_lower_char_def by (simp only: if_True)
    with assms have d: "d = c + 32" by simp
    show ?thesis by (rule py_lower_char_not_upper) (use a d in presburger)+
  next
    case b
    then have "py_lower_char c = [105, 775]" unfolding py_lower_char_def by simp
    with assms have d: "d = 105 \<or> d = 775" by simp
    show ?thesis by (rule py_lower_char_not_upper) (use d in presburger)+
  next
    case c
    then have "py_lower_char c = [255]" unfolding py_lower_char_def by simp
    with assms have d: "d = 255" by simp
    show ?thesis by (rule py_lower_char_not_upper) (use d in presburger)+
  next
    case d
    then have "py_lower_char c = [c + 1]" unfolding py_lower_char_def by simp
    with assms have e: "d = c + 1" by simp
    show ?thesis by (rule py_lower_char_not_upper) (use d e in presburger)+
  next
    case e
    then have "py_lower_char c = [c + 1]" unfolding py_lower_char_def by simp
    with assms have e': "d = c + 1" by simp
    show ?thesis by (rule py_lower_char_not_upper) (use e e' in presburger)+
  next
    case f
    then have "py_lower_char c = [c]" unfolding py_lower_char_def by (simp only: if_False)
    with assms have e': "d = c" by simp
    show ?thesis unfolding e' by (rule py_lower_char_not_upper) (use f in blast)+
  qed
qed

lemma py_lower_char_slug: "slug_char c \<Longrightarrow> py_lower_char c = [c]"
  by (auto simp: py_lower_char_def slug_char_def is_az_def)

lemma py_lower_fixed: "\<forall>d \<in> set y. py_lower_char d = [d] \<Longrightarrow> py_lower y = y"
  by (induction y) (simp_all add: py_lower_def)

lemma py_unicode_space: "\<forall>c. slug_char c \<longrightarrow> \<not> isspace py_unicode c"
  by (auto simp: py_unicode_def py_isspace_def slug_char_def is_az_def)

lemma py_unicode_comma: "\<not> isalnum py_unicode 44"
  by (simp add: py_unicode_def py_isalnum_def)

lemma py_unicode_letters: "\<forall>c. is_az c \<longrightarrow> isalnum py_unicode c"
  by (simp add: py_unicode_def py_isalnum_def is_az_def)

lemma py_unicode_lower:
  "\<forall>x y. set y \<subseteq> set (lower py_unicode x) \<union> {c. slug_char c} \<longrightarrow> lower py_unicode y = y"
proof (intro allI impI)
  fix x y
  assume sub: "set y \<subseteq> set (lower py_unicode x) \<union> {c. slug_char c}"
  have "py_lower_char d = [d]" if d: "d \<in> set y" for d
  proof (cases "slug_char d")
    case True
    then show ?thesis by (rule py_lower_char_slug)
  next
    case False
    with sub d have "d \<in> set (py_lower x)" by (auto simp: py_unicode_def)
    then obtain c where "d \<in> set (py_lower_char c)" by (auto simp: py_lower_def)
    then show ?thesis by (rule py_lower_char_fixed)
  qed
  then have "py_lower y = y" by (intro py_lower_fixed) simp
  then show "lower py_unicode y = y" by (simp add: py_unicode_def)
qed

subsection \<open>The claim\<close>

text \<open>
  C8: \<open>sanitize_folder_name\<close> is idempotent, for every character database in which
  the characters of \<^verbatim>\<open>[a-z0-9-]\<close> are not whitespace, the comma is not alphanumeric,
  the letters a to z are alphanumeric, and lowering leaves unchanged every string made
  of characters of \<^verbatim>\<open>[a-z0-9-]\<close> and of characters of a lowered string. Python's
  \<^verbatim>\<open>str.isspace\<close>, \<^verbatim>\<open>str.isalnum\<close> and \<^verbatim>\<open>str.lower\<close> have these four properties.
\<close>

theorem sanitize_idempotent:
  assumes "\<forall>c. slug_char c \<longrightarrow> \<not> isspace U c"
    and "\<not> isalnum U 44"
    and "\<forall>c. is_az c \<longrightarrow> isalnum U c"
    and "\<forall>x y. set y \<subseteq> set (lower U x) \<union> {c. slug_char c} \<longrightarrow> lower U y = y"
  shows "sanitize_folder_name U (sanitize_folder_name U s) = sanitize_folder_name U s"
proof (cases "sanitize_folder_name U s = unknown")
  case True
  have "sanitize_folder_name U unknown = unknown"
    by (rule stable_fixed) (rule unknown_stable [OF assms(1,3,4)])
  with True show ?thesis by simp
next
  case False
  let ?r = "strip_chars [45] (collapse_dashes (sanitize_filtered U s))"
  from False sanitize_folder_name_cases [of U s]
  have r: "sanitize_folder_name U s = ?r" and ne: "?r \<noteq> []" by auto
  have "stable U ?r" by (rule sanitize_result_stable [OF ne assms(1,2,4)])
  then have "sanitize_folder_name U ?r = ?r" by (rule stable_fixed)
  with r show ?thesis by simp
qed

theorem sanitize_idempotent_witness:
  "sanitize_folder_name py_unicode
     (sanitize_folder_name py_unicode (ustr ''G_d'' @ [39] @ ustr ''s Puzzle'')) =
   sanitize_folder_name py_unicode (ustr ''G_d'' @ [39] @ ustr ''s Puzzle'') \<and>
   sanitize_folder_name py_unicode (ustr ''G_d'' @ [39] @ ustr ''s Puzzle'') = ustr ''gds-puzzle''"
  using sanitize_idempotent [OF py_unicode_space py_unicode_comma py_unicode_letters py_unicode_lower,
      of "ustr ''G_d'' @ [39] @ ustr ''s Puzzle''"]
    sanitize_gds_puzzle
  by simp

end
